theory Spec2Isabelle
  imports Complex_Main "HOL-Library.Sublist" "HOL-Library.AList" "HOL-Library.Multiset"
begin

section \<open>Text primitives\<close>

text \<open>
  Python text is modelled as \<^typ>\<open>string\<close>. The character predicates below are the ones of
  Python's \<^verbatim>\<open>str\<close> on ASCII code points; on other characters they answer \<open>False\<close>
  (and \<open>lower\<close> leaves them alone), so the development speaks about ASCII text.
\<close>

definition isspace_chr :: "char \<Rightarrow> bool" where
  "isspace_chr c = (c \<in> set [CHR '' '', CHR 0x09, CHR 0x0A, CHR 0x0B, CHR 0x0C, CHR 0x0D,
                              CHR 0x1C, CHR 0x1D, CHR 0x1E, CHR 0x1F])"

definition isdigit_chr :: "char \<Rightarrow> bool" where
  "isdigit_chr c = (c \<in> set ''0123456789'')"

definition isupper_chr :: "char \<Rightarrow> bool" where
  "isupper_chr c = (c \<in> set ''ABCDEFGHIJKLMNOPQRSTUVWXYZ'')"

definition islower_chr :: "char \<Rightarrow> bool" where
  "islower_chr c = (c \<in> set ''abcdefghijklmnopqrstuvwxyz'')"

definition isalnum_chr :: "char \<Rightarrow> bool" where
  "isalnum_chr c = (isupper_chr c \<or> islower_chr c \<or> isdigit_chr c)"

definition lower_chr :: "char \<Rightarrow> char" where
  "lower_chr c = (case map_of (zip ''ABCDEFGHIJKLMNOPQRSTUVWXYZ'' ''abcdefghijklmnopqrstuvwxyz'') c of
                    Some l \<Rightarrow> l | None \<Rightarrow> c)"

text \<open>\<^verbatim>\<open>s.lower()\<close>\<close>
definition lower :: "string \<Rightarrow> string" where
  "lower s = map lower_chr s"

text \<open>\<^verbatim>\<open>s.strip()\<close>: leading and trailing whitespace removed.\<close>
definition strip :: "string \<Rightarrow> string" where
  "strip s = rev (dropWhile isspace_chr (rev (dropWhile isspace_chr s)))"

text \<open>\<^verbatim>\<open>s.startswith(p)\<close> and \<^verbatim>\<open>s.endswith(p)\<close> for one string \<open>p\<close>.\<close>
definition startswith :: "string \<Rightarrow> string \<Rightarrow> bool" where
  "startswith s p = (take (length p) s = p)"

definition endswith :: "string \<Rightarrow> string \<Rightarrow> bool" where
  "endswith s p = (length p \<le> length s \<and> drop (length s - length p) s = p)"

text \<open>\<^verbatim>\<open>s.endswith(t)\<close> for a tuple \<open>t\<close> of strings: some member is a suffix; the empty
  tuple gives \<open>False\<close>.\<close>
definition endswith_any :: "string \<Rightarrow> string list \<Rightarrow> bool" where
  "endswith_any s ps = list_ex (endswith s) ps"

text \<open>\<^verbatim>\<open>" ".join(xs)\<close>\<close>
fun join_space :: "string list \<Rightarrow> string" where
  "join_space [] = []"
| "join_space [x] = x"
| "join_space (x # y # ys) = x @ '' '' @ join_space (y # ys)"

text \<open>\<^verbatim>\<open>s.split()\<close>: the maximal runs of non-whitespace characters.\<close>
fun split_ws_from :: "string \<Rightarrow> string \<Rightarrow> string list" where
  "split_ws_from cur [] = (if cur = [] then [] else [cur])"
| "split_ws_from cur (c # cs) =
     (if isspace_chr c then (if cur = [] then split_ws_from [] cs else cur # split_ws_from [] cs)
      else split_ws_from (cur @ [c]) cs)"

definition split_ws :: "string \<Rightarrow> string list" where
  "split_ws s = split_ws_from [] s"

section \<open>Language rules (language\_rules.py)\<close>

text \<open>A dictionary with string keys, read with \<^verbatim>\<open>d.get(k, default)\<close>.\<close>
definition dict_get :: "(string \<times> 'v) list \<Rightarrow> string \<Rightarrow> 'v \<Rightarrow> 'v" where
  "dict_get d k dflt = (case map_of d k of Some v \<Rightarrow> v | None \<Rightarrow> dflt)"

definition SCRIPT_MAP :: "(string \<times> string) list" where
  "SCRIPT_MAP =
    [(''hi'', ''Devanagari''), (''bn'', ''Bengali''), (''ta'', ''Tamil''), (''te'', ''Telugu''),
     (''mr'', ''Devanagari''), (''gu'', ''Gujarati''), (''kn'', ''Kannada''),
     (''ml'', ''Malayalam''), (''pa'', ''Gurmukhi''), (''or'', ''Oriya''), (''as'', ''Assamese''),
     (''ur'', ''Urdu''), (''sa'', ''Devanagari''), (''ne'', ''Devanagari''), (''sd'', ''Arabic''),
     (''ks'', ''Arabic''), (''gom'', ''Devanagari''), (''mai'', ''Devanagari''),
     (''doi'', ''Devanagari''), (''brx'', ''Devanagari''), (''mni'', ''Bengali''),
     (''sat'', ''OlChiki'')]"

definition get_script_name :: "string \<Rightarrow> string" where
  "get_script_name lang_code = dict_get SCRIPT_MAP lang_code ''Devanagari''"

definition SCHWA_PROTECTION_RULES :: "(string \<times> string list) list" where
  "SCHWA_PROTECTION_RULES =
    [(''hi'', [''na'', ''la'', ''ta'', ''da'', ''ga'', ''ya'', ''ka'', ''ra'', ''ha'', ''ma'', ''ja'']),
     (''mr'', [''na'', ''la'', ''ta'', ''da'', ''ga'', ''ya'', ''ka'', ''ra'', ''ha'', ''ma'', ''ja'']),
     (''gu'', [''na'', ''la'', ''ta'', ''da'', ''ga'', ''ya'', ''ka'']),
     (''bn'', [''o'', ''a'']),
     (''pa'', [''na'', ''la'', ''ta'']),
     (''ur'', [''ah'', ''eh'']),
     (''ta'', [''a'', ''i'', ''u'', ''e'', ''o'']),
     (''te'', [''a'', ''i'', ''u'', ''e'', ''o'']),
     (''kn'', [''a'', ''i'', ''u'', ''e'', ''o'']),
     (''ml'', [''a'', ''i'', ''u'', ''e'', ''o'']),
     (''sa'', [''a'', ''i'', ''u'', ''e'', ''o'', ''m'', ''h''])]"

text \<open>The phonetic substitutions of a language, in the order the dictionary lists them.\<close>
definition PHONETIC_FIXES :: "(string \<times> (string \<times> string) list) list" where
  "PHONETIC_FIXES =
    [(''hi'', [(''Phr'', ''Fr''), (''phr'', ''fr''), (''Ph'', ''F''), (''ph'', ''f''),
               (''v'', ''v''), (''w'', ''v'')]),
     (''mr'', [(''Phr'', ''Fr''), (''phr'', ''fr''), (''v'', ''v''), (''zh'', ''jh'')]),
     (''bn'', [(''v'', ''b''), (''V'', ''B''), (''w'', ''b''), (''a'', ''o'')]),
     (''or'', [(''v'', ''b''), (''w'', ''b''), (''a'', ''o'')]),
     (''as'', [(''v'', ''b''), (''w'', ''b''), (''ch'', ''s'')]),
     (''ta'', [(''zh'', ''l''), (''th'', ''dh'')]),
     (''te'', [(''th'', ''d''), (''T'', ''t'')]),
     (''ml'', [(''zh'', ''l''), (''th'', ''d'')]),
     (''ur'', [(''q'', ''k''), (''z'', ''j'')]),
     (''pa'', [(''bh'', ''p''), (''dh'', ''t'')])]"

definition NO_SCHWA_DELETION :: "string list" where
  "NO_SCHWA_DELETION =
     [''ta'', ''te'', ''kn'', ''ml'', ''sa'', ''ne'', ''as'', ''or'', ''bn'', ''mni'', ''sat'']"

definition is_schwa_deletion_enabled :: "string \<Rightarrow> bool" where
  "is_schwa_deletion_enabled lang_code = (lang_code \<notin> set NO_SCHWA_DELETION)"

section \<open>Schwa deletion in the romanizer (xglish\_mixer.py, lines 198--209)\<close>

text \<open>
  The body of the loop over \<^verbatim>\<open>roman.split()\<close>: the word \<open>w\<close> loses its last character
  when the three outer tests and the two inner tests pass. \<^verbatim>\<open>w[-2]\<close> is read only when
  \<open>len(w) > 3\<close>, so the index is in range.
\<close>
definition schwa_word :: "bool \<Rightarrow> string list \<Rightarrow> string \<Rightarrow> string" where
  "schwa_word should_schwa_delete protected_suffixes w =
     (if should_schwa_delete \<and> length w > 3 \<and> endswith w ''a'' then
        (let is_vowel_pen = (w ! (length w - 2) \<in> set ''aeiou'') in
         if \<not> is_vowel_pen \<and> \<not> endswith_any w protected_suffixes then butlast w else w)
      else w)"

text \<open>The same step with the two language lookups the caller makes before the loop.\<close>
definition schwa_clean :: "string \<Rightarrow> string \<Rightarrow> string" where
  "schwa_clean target_lang w =
     schwa_word (is_schwa_deletion_enabled target_lang)
                (dict_get SCHWA_PROTECTION_RULES target_lang []) w"

text \<open>
  The condition of the specification, in its own words: schwa deletion is enabled for the
  language (every code but the eleven listed), the word is longer than three characters, it
  ends in \<open>a\<close>, the character before the last is none of \<open>a e i o u\<close>, and no protected
  suffix of the language ends the word.
\<close>
definition schwa_spec :: "string \<Rightarrow> string \<Rightarrow> bool" where
  "schwa_spec lang w =
     (lang \<notin> {''ta'', ''te'', ''kn'', ''ml'', ''sa'', ''ne'', ''as'', ''or'', ''bn'', ''mni'', ''sat''}
      \<and> 3 < length w
      \<and> last w = CHR ''a''
      \<and> w ! (length w - 2) \<notin> {CHR ''a'', CHR ''e'', CHR ''i'', CHR ''o'', CHR ''u''}
      \<and> \<not> (\<exists>s \<in> set (dict_get SCHWA_PROTECTION_RULES lang []). suffix s w))"

lemma endswith_suffix: "endswith w s = suffix s w"
  unfolding endswith_def
proof
  assume "length s \<le> length w \<and> drop (length w - length s) w = s"
  then show "suffix s w" by (metis suffix_drop)
next
  assume "suffix s w"
  then obtain zs where "w = zs @ s" by (auto simp: suffix_def)
  then show "length s \<le> length w \<and> drop (length w - length s) w = s" by simp
qed

lemma suffix_a: "suffix ''a'' w = (w \<noteq> [] \<and> last w = CHR ''a'')"
  by (cases w rule: rev_cases) (auto simp: suffix_def)

text \<open>
  Claim C3. For every romanized word \<open>w\<close> and every language code, the romanizer's cleaning
  step removes the last character of \<open>w\<close> exactly when the specification's condition holds
  (deletion enabled for the language, i.e. the code is none of ta, te, kn, ml, sa, ne, as, or,
  bn, mni, sat; more than three characters; final \<open>a\<close>; no vowel before it; no protected
  suffix of the language at the end of the word), and leaves \<open>w\<close> as it is otherwise.
\<close>
theorem schwa_deletion_iff:
  "schwa_clean lang w = (if schwa_spec lang w then butlast w else w)
   \<and> (schwa_clean lang w \<noteq> w) = schwa_spec lang w"
proof -
  have a: "schwa_clean lang w = (if schwa_spec lang w then butlast w else w)"
    by (auto simp: schwa_clean_def schwa_word_def schwa_spec_def is_schwa_deletion_enabled_def
        NO_SCHWA_DELETION_def suffix_a endswith_any_def list_ex_iff endswith_suffix Let_def)
  have b: "schwa_spec lang w \<Longrightarrow> butlast w \<noteq> w"
    by (cases w rule: rev_cases) (auto simp: schwa_spec_def)
  show ?thesis using a b by auto
qed

lemma schwa_clean_examples:
  "schwa_clean ''hi'' ''ramesa'' = ''rames''"
  "schwa_clean ''hi'' ''kamala'' = ''kamala''"
  "schwa_clean ''ta'' ''ramesa'' = ''ramesa''"
  "schwa_clean ''xx'' ''ramesa'' = ''rames''"
  by (simp_all add: schwa_clean_def schwa_word_def is_schwa_deletion_enabled_def
      NO_SCHWA_DELETION_def dict_get_def SCHWA_PROTECTION_RULES_def endswith_def endswith_any_def)

section \<open>The token classifier (xglish\_mixer.py, is\_keep\_word)\<close>

text \<open>
  The resource store of resource\_loader.py: the three global tables, read-only after loading.
  Scores, frequencies and the formality threshold are finite Python numbers, ints or floats
  (the server passes the threshold as a float); each is modelled as the real number it denotes.
\<close>
record resources =
  TECH_TERMS :: "string set"
  MANUAL_KEEP_WORDS :: "string set"
  FORMALITY_SCORES :: "string \<rightharpoonup> real"

definition CONTRACTIONS :: "string list" where
  "CONTRACTIONS = [''n't'', CHR 0x27 # ''s'', CHR 0x27 # ''m'', CHR 0x27 # ''re'',
                   CHR 0x27 # ''ll'', CHR 0x27 # ''ve'', CHR 0x27 # ''d'', ''nt'']"

text \<open>\<^verbatim>\<open>s.isupper()\<close>: at least one cased character, and no lowercase one.\<close>
definition isupper_str :: "string \<Rightarrow> bool" where
  "isupper_str s = (list_ex isupper_chr s \<and> \<not> list_ex islower_chr s)"

text \<open>\<^verbatim>\<open>tag and tag.startswith(p)\<close> for a tag that may be \<^verbatim>\<open>None\<close> or empty.\<close>
definition tag_startswith :: "string option \<Rightarrow> string \<Rightarrow> bool" where
  "tag_startswith tag p = (case tag of None \<Rightarrow> False | Some t \<Rightarrow> t \<noteq> [] \<and> startswith t p)"

text \<open>
  Python's arithmetic on these numbers. A comparison of two finite numbers is exact, so
  \<^verbatim>\<open>>=\<close> and \<^verbatim>\<open><\<close> are the orders of the reals. Subtraction and addition are exact on ints
  but round to the nearest double as soon as an operand is a float: \<^verbatim>\<open>10 - t\<close> and
  \<^verbatim>\<open>t + 1.5\<close> are what the machine computes, not the exact difference and sum. The two
  operations are therefore parameters of the model, and nothing is assumed about them.
\<close>
record arith =
  py_sub :: "real \<Rightarrow> real \<Rightarrow> real"
  py_add :: "real \<Rightarrow> real \<Rightarrow> real"

text \<open>The arithmetic without rounding: Python's on ints, and on floats wherever the exact
  result is a double (as for the small whole numbers of the examples).\<close>
definition exact_arith :: arith where
  "exact_arith = \<lparr>py_sub = (\<lambda>a b. a - b), py_add = (\<lambda>a b. a + b)\<rparr>"

text \<open>
  The arithmetic of IEEE doubles, which is Python's as soon as an operand is a float: the exact
  result is rounded to the nearest double, a tie going to the even significand. A double in the
  normal range has a significand of 53 bits, so around \<open>x\<close> with \<open>2 ^ e \<le> \<bar>x\<bar> < 2 ^ (e + 1)\<close> the
  doubles are the multiples of \<open>2 ^ (e - 52)\<close>. Overflow and subnormal results are not modelled;
  they do not arise for thresholds and frequencies of ordinary size.
\<close>
definition round_half_even :: "real \<Rightarrow> int" where
  "round_half_even x =
     (let f = \<lfloor>x\<rfloor>; d = x - of_int f in
      if d < 1 / 2 then f
      else if 1 / 2 < d then f + 1
      else if even f then f else f + 1)"

definition binade :: "real \<Rightarrow> int" where
  "binade x = \<lfloor>log 2 \<bar>x\<bar>\<rfloor>"

definition round_double :: "real \<Rightarrow> real" where
  "round_double x =
     (if x = 0 then 0
      else let ulp = 2 powr (of_int (binade x) - 52) in
           of_int (round_half_even (x / ulp)) * ulp)"

definition double_arith :: arith where
  "double_arith = \<lparr>py_sub = (\<lambda>a b. round_double (a - b)),
                    py_add = (\<lambda>a b. round_double (a + b))\<rparr>"

text \<open>Rule 4 and the final \<^verbatim>\<open>return False\<close>; \<open>zipf_frequency\<close> is the wordfreq library's
  function for English, a parameter of the model.\<close>
definition frequency_fallback ::
  "arith \<Rightarrow> (string \<Rightarrow> real) \<Rightarrow> string \<Rightarrow> string option \<Rightarrow> real \<Rightarrow> bool" where
  "frequency_fallback ar zipf_frequency word tag formality_threshold =
     (let freq = zipf_frequency word in
      if freq < formality_threshold then True
      else if tag_startswith tag ''NN'' \<and> freq < py_add ar formality_threshold 1.5 then True
      else False)"

definition is_keep_word ::
  "arith \<Rightarrow> resources \<Rightarrow> (string \<Rightarrow> real) \<Rightarrow> string \<Rightarrow> string option \<Rightarrow> nat \<Rightarrow> real \<Rightarrow> bool" where
  "is_keep_word ar res zipf_frequency word tag index formality_threshold =
     (let word_low = lower word in
      if strip word = [] then False
      else if word_low \<in> set CONTRACTIONS \<or> endswith word_low ''n't'' then False
      else if word_low \<in> TECH_TERMS res then True
      else if word_low \<in> MANUAL_KEEP_WORDS res then True
      else if tag_startswith tag ''VB'' then False
      else (case FORMALITY_SCORES res word_low of
              Some scale \<Rightarrow> (if scale \<ge> py_sub ar 10 formality_threshold then True else False)
            | None \<Rightarrow>
                if length word > 1 \<and> isupper_str word then True
                else if length word > 1 \<and> isupper_chr (word ! 0) then
                  (if index = 0 then
                     (if tag_startswith tag ''NNP'' then True
                      else frequency_fallback ar zipf_frequency word tag formality_threshold)
                   else True)
                else frequency_fallback ar zipf_frequency word tag formality_threshold))"

text \<open>Rule 1 of the specification: the token is a structural contraction fragment.\<close>
definition is_contraction :: "string \<Rightarrow> bool" where
  "is_contraction word = (lower word \<in> set CONTRACTIONS \<or> suffix ''n't'' (lower word))"

text \<open>A small resource store for the examples.\<close>
definition demo_res :: resources where
  "demo_res = \<lparr>TECH_TERMS = {''gpu''}, MANUAL_KEEP_WORDS = {''jugaad''},
               FORMALITY_SCORES = [''asap'' \<mapsto> 1, ''hello'' \<mapsto> 5]\<rparr>"




text \<open>A store that gives \<open>hello\<close> the formality score 6.\<close>
definition score_res :: resources where
  "score_res = \<lparr>TECH_TERMS = {}, MANUAL_KEEP_WORDS = {},
                 FORMALITY_SCORES = [''hello'' \<mapsto> 6]\<rparr>"

lemma binade_eq: "0 < x \<Longrightarrow> 2 ^ k \<le> x \<Longrightarrow> x < 2 ^ Suc k \<Longrightarrow> binade x = int k"
  unfolding binade_def
  by (simp add: floor_log_eq_powr_iff powr_realpow powr_add)

lemma round_double_example: "round_double (10 - (4 - 1 / 2 ^ 51)) = 6"
proof -
  have e: "10 - (4 - 1 / 2 ^ 51) = (6 + 1 / 2 ^ 51 :: real)" by simp
  have b: "binade (6 + 1 / 2 ^ 51) = 2"
    using binade_eq [of "6 + 1 / 2 ^ 51" 2] by simp
  have u: "(2::real) powr (of_int 2 - 52) = 1 / 2 ^ 50"
    by (simp add: powr_minus_divide powr_realpow flip: powr_realpow)
  show ?thesis unfolding e round_double_def b Let_def u
    by (simp add: round_half_even_def)
qed

lemma round_double_whole: "round_double (10 - 7) = 3"
proof -
  have b: "binade 3 = 1" using binade_eq [of 3 1] by simp
  have u: "(2::real) powr (of_int 1 - 52) = 1 / 2 ^ 51"
    by (simp add: powr_minus_divide powr_realpow flip: powr_realpow)
  have e: "(10 - 7 :: real) = 3" by simp
  show ?thesis unfolding e round_double_def b Let_def u
    by (simp add: round_half_even_def)
qed

lemma is_keep_word_scored:
  assumes "strip word \<noteq> []" and "\<not> is_contraction word"
    and "lower word \<notin> TECH_TERMS res" and "lower word \<notin> MANUAL_KEEP_WORDS res"
    and "\<not> tag_startswith tag ''VB''" and "FORMALITY_SCORES res (lower word) = Some s"
  shows "is_keep_word ar res zipf word tag index t = (py_sub ar 10 t \<le> s)"
  using assms by (simp add: is_keep_word_def is_contraction_def endswith_suffix Let_def)

lemma hello_scored:
  "strip ''hello'' \<noteq> []" "\<not> is_contraction ''hello''"
  "lower ''hello'' \<notin> TECH_TERMS score_res" "lower ''hello'' \<notin> MANUAL_KEEP_WORDS score_res"
  "\<not> tag_startswith None ''VB''" "FORMALITY_SCORES score_res (lower ''hello'') = Some 6"
proof -
  have l: "lower ''hello'' = ''hello''" by code_simp
  show "strip ''hello'' \<noteq> []" "\<not> is_contraction ''hello''" by code_simp+
  show "lower ''hello'' \<notin> TECH_TERMS score_res" "lower ''hello'' \<notin> MANUAL_KEEP_WORDS score_res"
    "FORMALITY_SCORES score_res (lower ''hello'') = Some 6"
    unfolding l by (simp_all add: score_res_def)
  show "\<not> tag_startswith None ''VB''" by (simp add: tag_startswith_def)
qed



text \<open>
  The same word and threshold under the two arithmetics: the doubles keep the word, as the
  code does; an arithmetic that does not round would translate it.
\<close>
lemma is_keep_word_rounding_example:
  "is_keep_word double_arith score_res (\<lambda>_. 5) ''hello'' None 1 (4 - 1 / 2 ^ 51)"
  "\<not> is_keep_word exact_arith score_res (\<lambda>_. 5) ''hello'' None 1 (4 - 1 / 2 ^ 51)"
proof -
  have d: "py_sub double_arith 10 (4 - 1 / 2 ^ 51) = 6"
    unfolding double_arith_def arith.simps by (rule round_double_example)
  show "is_keep_word double_arith score_res (\<lambda>_. 5) ''hello'' None 1 (4 - 1 / 2 ^ 51)"
    unfolding is_keep_word_scored [OF hello_scored] d by simp
  show "\<not> is_keep_word exact_arith score_res (\<lambda>_. 5) ''hello'' None 1 (4 - 1 / 2 ^ 51)"
    unfolding is_keep_word_scored [OF hello_scored] by (simp add: exact_arith_def)
qed

section \<open>The cohesion corrector (xglish\_mixer.py, lines 106--118)\<close>

definition WEAK_TAGS :: "string list" where
  "WEAK_TAGS = [''RB'', ''RBR'', ''RBS'', ''IN'', ''CC'', ''TO'', ''DT'', ''UH'', ''MD'']"

text \<open>\<^verbatim>\<open>tags.get(clean) or tags.get(word)\<close>: the first lookup counts when it is a non-empty
  string, the second one otherwise.\<close>
definition lookup_tag :: "(string \<rightharpoonup> string) \<Rightarrow> string \<Rightarrow> string \<Rightarrow> string option" where
  "lookup_tag tags clean word =
     (case tags clean of Some t \<Rightarrow> (if t \<noteq> [] then Some t else tags word) | None \<Rightarrow> tags word)"

text \<open>\<^verbatim>\<open>tag and any(tag.startswith(t) for t in WEAK_TAGS)\<close>\<close>
definition is_weak_tag :: "string option \<Rightarrow> bool" where
  "is_weak_tag tag = list_ex (tag_startswith tag) WEAK_TAGS"

text \<open>
  One iteration of the loop, at index \<open>i\<close>, on the decision array as it stands: the array is
  updated in place, so the left neighbour is read after its own iteration and the right
  neighbour before. Both reads are guarded by the index tests, as in the source.
\<close>
definition cohesion_step ::
  "resources \<Rightarrow> (string \<rightharpoonup> string) \<Rightarrow> string list \<Rightarrow> string list \<Rightarrow> nat \<Rightarrow> bool list \<Rightarrow> bool list" where
  "cohesion_step res tags words clean_words i decisions =
     (if decisions ! i then
        (let clean = clean_words ! i in
         if lower clean \<in> TECH_TERMS res then decisions
         else
           (let tag = lookup_tag tags clean (words ! i) in
            if is_weak_tag tag then
              (let left_translated = (i > 0 \<and> \<not> decisions ! (i - 1));
                   right_translated = (i < length words - 1 \<and> \<not> decisions ! (i + 1)) in
               if left_translated \<or> right_translated then decisions[i := False] else decisions)
            else decisions))
      else decisions)"

text \<open>\<^verbatim>\<open>for i in range(len(words))\<close>\<close>
definition cohesion ::
  "resources \<Rightarrow> (string \<rightharpoonup> string) \<Rightarrow> string list \<Rightarrow> string list \<Rightarrow> bool list \<Rightarrow> bool list" where
  "cohesion res tags words clean_words decisions =
     fold (cohesion_step res tags words clean_words) [0..<length words] decisions"

text \<open>The tokens the specification lets the corrector flip: weak tag, not a technical
  term.\<close>
definition weak_non_tech ::
  "resources \<Rightarrow> (string \<rightharpoonup> string) \<Rightarrow> string list \<Rightarrow> string list \<Rightarrow> nat \<Rightarrow> bool" where
  "weak_non_tech res tags words clean_words i =
     (is_weak_tag (lookup_tag tags (clean_words ! i) (words ! i))
      \<and> lower (clean_words ! i) \<notin> TECH_TERMS res)"

lemma cohesion_step_length [simp]:
  "length (cohesion_step res tags words cw i d) = length d"
  by (simp add: cohesion_step_def Let_def)

lemma cohesion_step_other:
  "j \<noteq> i \<Longrightarrow> cohesion_step res tags words cw i d ! j = d ! j"
  by (simp add: cohesion_step_def Let_def)

lemma cohesion_step_at:
  "i < length d \<Longrightarrow> length words = length d \<Longrightarrow>
   cohesion_step res tags words cw i d ! i =
     (d ! i \<and> \<not> (weak_non_tech res tags words cw i
                   \<and> ((0 < i \<and> \<not> d ! (i - 1)) \<or> (i + 1 < length d \<and> \<not> d ! (i + 1)))))"
  by (auto simp: cohesion_step_def weak_non_tech_def Let_def)

text \<open>The decision array after the first \<open>k\<close> iterations.\<close>
definition cohesion_upto ::
  "resources \<Rightarrow> (string \<rightharpoonup> string) \<Rightarrow> string list \<Rightarrow> string list \<Rightarrow> nat \<Rightarrow> bool list \<Rightarrow> bool list" where
  "cohesion_upto res tags words cw k d = fold (cohesion_step res tags words cw) [0..<k] d"

lemma cohesion_upto_0 [simp]: "cohesion_upto res tags words cw 0 d = d"
  by (simp add: cohesion_upto_def)

lemma cohesion_upto_Suc:
  "cohesion_upto res tags words cw (Suc k) d =
     cohesion_step res tags words cw k (cohesion_upto res tags words cw k d)"
  by (simp add: cohesion_upto_def)

lemma cohesion_upto_length [simp]:
  "length (cohesion_upto res tags words cw k d) = length d"
  by (induction k) (simp_all add: cohesion_upto_Suc)

lemma cohesion_upto_above:
  "k \<le> i \<Longrightarrow> cohesion_upto res tags words cw k d ! i = d ! i"
  by (induction k) (simp_all add: cohesion_upto_Suc cohesion_step_other)

lemma cohesion_upto_stable:
  "i < k \<Longrightarrow> cohesion_upto res tags words cw k d ! i = cohesion_upto res tags words cw (Suc i) d ! i"
proof (induction k)
  case 0
  then show ?case by simp
next
  case (Suc k)
  show ?case
  proof (cases "i = k")
    case True
    then show ?thesis by simp
  next
    case False
    with Suc.prems have "i < k" by simp
    with Suc.IH False show ?thesis
      by (simp add: cohesion_upto_Suc [of _ _ _ _ k] cohesion_step_other)
  qed
qed

lemma cohesion_upto_at:
  assumes "length words = length d" "i < k" "k \<le> length d"
  shows "cohesion_upto res tags words cw k d ! i =
           (d ! i \<and> \<not> (weak_non_tech res tags words cw i
              \<and> ((0 < i \<and> \<not> cohesion_upto res tags words cw k d ! (i - 1))
                  \<or> (i + 1 < length d \<and> \<not> d ! (i + 1)))))"
proof -
  let ?r = "\<lambda>k. cohesion_upto res tags words cw k d"
  have i: "i < length (?r i)" "length words = length (?r i)" using assms by simp_all
  have "?r k ! i = ?r (Suc i) ! i" using assms(2) by (rule cohesion_upto_stable)
  also have "\<dots> = cohesion_step res tags words cw i (?r i) ! i"
    by (simp only: cohesion_upto_Suc)
  also have "\<dots> = (?r i ! i \<and> \<not> (weak_non_tech res tags words cw i
              \<and> ((0 < i \<and> \<not> ?r i ! (i - 1)) \<or> (i + 1 < length (?r i) \<and> \<not> ?r i ! (i + 1)))))"
    by (rule cohesion_step_at [OF i])
  finally have main: "?r k ! i = (?r i ! i \<and> \<not> (weak_non_tech res tags words cw i
              \<and> ((0 < i \<and> \<not> ?r i ! (i - 1)) \<or> (i + 1 < length (?r i) \<and> \<not> ?r i ! (i + 1)))))" .
  have a: "?r i ! i = d ! i" by (simp add: cohesion_upto_above)
  have b: "?r i ! (i + 1) = d ! (i + 1)" by (simp add: cohesion_upto_above)
  have c: "?r k ! (i - 1) = ?r i ! (i - 1)" if "0 < i"
  proof -
    have lt: "i - 1 < k" "i - 1 < i" using that assms(2) by simp_all
    have "?r k ! (i - 1) = ?r (Suc (i - 1)) ! (i - 1)"
      by (rule cohesion_upto_stable [OF lt(1)])
    also have "\<dots> = ?r i ! (i - 1)"
      by (rule cohesion_upto_stable [OF lt(2), symmetric])
    finally show ?thesis .
  qed
  have len: "length (?r i) = length d" by simp
  show ?thesis
  proof (cases "0 < i")
    case True
    show ?thesis unfolding main a b len c [OF True] ..
  next
    case False
    then show ?thesis unfolding main a b len by simp
  qed
qed

text \<open>
  Claim C4. The corrector makes one left-to-right pass over the decision array (one entry per
  token) and keeps its length. The entry of token \<open>i\<close> after the pass is keep exactly when
  it was keep before and it is not the case that the token is weak-tagged, is no technical
  term and has a translate-marked neighbour when the pass visits it: the left neighbour as the
  pass has left it (so a flip propagates to the right), the right neighbour as classification
  left it. So exactly these tokens are flipped to translate, no translate decision becomes keep
  and no other entry changes; the classifier is not consulted again.
\<close>
theorem cohesion_single_pass:
  assumes "length words = length decisions"
  shows "length (cohesion res tags words cw decisions) = length decisions
    \<and> (\<forall>i < length decisions.
         cohesion res tags words cw decisions ! i =
           (decisions ! i
            \<and> \<not> (weak_non_tech res tags words cw i
                 \<and> ((0 < i \<and> \<not> cohesion res tags words cw decisions ! (i - 1))
                     \<or> (i + 1 < length decisions \<and> \<not> decisions ! (i + 1))))))"
proof -
  have eq: "cohesion res tags words cw decisions =
            cohesion_upto res tags words cw (length decisions) decisions"
    by (simp add: cohesion_def cohesion_upto_def assms)
  have len: "length (cohesion_upto res tags words cw (length decisions) decisions) = length decisions"
    by (rule cohesion_upto_length)
  have at: "\<forall>i < length decisions.
         cohesion_upto res tags words cw (length decisions) decisions ! i =
           (decisions ! i
            \<and> \<not> (weak_non_tech res tags words cw i
                 \<and> ((0 < i \<and> \<not> cohesion_upto res tags words cw (length decisions) decisions ! (i - 1))
                     \<or> (i + 1 < length decisions \<and> \<not> decisions ! (i + 1)))))"
  proof (intro allI impI)
    fix i assume "i < length decisions"
    from cohesion_upto_at [OF assms this order_refl]
    show "cohesion_upto res tags words cw (length decisions) decisions ! i =
           (decisions ! i
            \<and> \<not> (weak_non_tech res tags words cw i
                 \<and> ((0 < i \<and> \<not> cohesion_upto res tags words cw (length decisions) decisions ! (i - 1))
                     \<or> (i + 1 < length decisions \<and> \<not> decisions ! (i + 1)))))" .
  qed
  show ?thesis unfolding eq using len at by (rule conjI)
qed


text \<open>Tags for the examples.\<close>
definition demo_tags :: "string \<rightharpoonup> string" where
  "demo_tags = [''go'' \<mapsto> ''VB'', ''to'' \<mapsto> ''TO'', ''the'' \<mapsto> ''DT'', ''Delhi'' \<mapsto> ''NNP'']"

lemmas cohesion_eval = cohesion_def cohesion_step_def lookup_tag_def is_weak_tag_def WEAK_TAGS_def
  tag_startswith_def startswith_def demo_tags_def demo_res_def lower_def lower_chr_def Let_def

text \<open>A flip propagates to the right within the pass; a token whose right neighbour is flipped
  later in the same pass is not revisited.\<close>
lemma cohesion_cascade_example:
  "cohesion demo_res demo_tags [''go'', ''to'', ''the'', ''Delhi''] [''go'', ''to'', ''the'', ''Delhi'']
     [False, True, True, True] = [False, False, False, True]"
  by (simp add: cohesion_eval upt_rec)

lemma cohesion_one_pass_example:
  "cohesion demo_res demo_tags [''the'', ''to'', ''go''] [''the'', ''to'', ''go'']
     [True, True, False] = [True, False, False]"
  by (simp add: cohesion_eval upt_rec)

theorem cohesion_single_pass_witness:
  "length [''go'', ''to'', ''the'', ''Delhi''] = length [False, True, True, True]
   \<and> cohesion demo_res demo_tags [''go'', ''to'', ''the'', ''Delhi''] [''go'', ''to'', ''the'', ''Delhi'']
        [False, True, True, True] ! 2 = False
   \<and> weak_non_tech demo_res demo_tags [''go'', ''to'', ''the'', ''Delhi''] [''go'', ''to'', ''the'', ''Delhi''] 2
   \<and> cohesion demo_res demo_tags [''go'', ''to'', ''the'', ''Delhi''] [''go'', ''to'', ''the'', ''Delhi'']
        [False, True, True, True] ! 1 = False"
proof -
  let ?w = "[''go'', ''to'', ''the'', ''Delhi'']"
  let ?d = "[False, True, True, True]"
  have len: "length ?w = length ?d" by simp
  have weak: "weak_non_tech demo_res demo_tags ?w ?w 2" "weak_non_tech demo_res demo_tags ?w ?w 1"
    by (simp_all add: weak_non_tech_def cohesion_eval)
  note at = cohesion_single_pass [OF len, of demo_res demo_tags ?w, THEN conjunct2, THEN spec, THEN mp]
  have 0: "cohesion demo_res demo_tags ?w ?w ?d ! 0 = False"
    using at [of 0] by simp
  have 1: "cohesion demo_res demo_tags ?w ?w ?d ! 1 = False"
    using at [of 1] 0 weak(2) by simp
  have 2: "cohesion demo_res demo_tags ?w ?w ?d ! 2 = False"
    using at [of 2] 1 weak(1) by simp
  show ?thesis using len weak(1) 1 2 by simp
qed

section \<open>The chunk masker (xglish\_mixer.py, lines 120--149)\<close>

text \<open>\<^verbatim>\<open>str(n)\<close> for a non-negative integer: its decimal digits.\<close>
definition digit_chr :: "nat \<Rightarrow> char" where
  "digit_chr d = ''0123456789'' ! d"

fun str_nat :: "nat \<Rightarrow> string" where
  "str_nat n = (if n < 10 then [digit_chr n] else str_nat (n div 10) @ [digit_chr (n mod 10)])"

declare str_nat.simps [simp del]

text \<open>The placeholder of a chunk: \<^verbatim>\<open>{{n}}\<close> for IndicTrans2, \<^verbatim>\<open>VAR_n\<close> otherwise.\<close>
definition placeholder :: "bool \<Rightarrow> nat \<Rightarrow> string" where
  "placeholder is_indictrans token_id =
     (if is_indictrans then ''{{'' @ str_nat token_id @ ''}}'' else ''VAR_'' @ str_nat token_id)"

text \<open>The inner loop: from index \<open>j\<close> on, tokens join the chunk while they are marked keep.\<close>
function collect_chunk :: "string list \<Rightarrow> bool list \<Rightarrow> nat \<Rightarrow> string list \<Rightarrow> string list \<times> nat" where
  "collect_chunk words decisions j chunk =
     (if j < length words then
        (if decisions ! j then collect_chunk words decisions (j + 1) (chunk @ [words ! j])
         else (chunk, j))
      else (chunk, j))"
  by pat_completeness auto
termination
  by (relation "measure (\<lambda>(words, decisions, j, chunk). length words - j)") auto

declare collect_chunk.simps [simp del]

lemma collect_chunk_ge: "j \<le> snd (collect_chunk words decisions j chunk)"
proof (induction words decisions j chunk rule: collect_chunk.induct)
  case (1 words decisions j chunk)
  show ?case
    using 1 by (subst collect_chunk.simps) (auto intro: Suc_leD)
qed

text \<open>
  The outer loop. \<open>kept_words\<close> is the dictionary from placeholder to chunk text, in insertion
  order; \<open>masked_words\<close> is the list of output tokens.
\<close>
function mask_loop ::
  "bool \<Rightarrow> string list \<Rightarrow> bool list \<Rightarrow> nat \<Rightarrow> nat \<Rightarrow> (string \<times> string) list \<Rightarrow> string list
   \<Rightarrow> (string \<times> string) list \<times> string list" where
  "mask_loop is_indictrans words decisions i token_id kept_words masked_words =
     (if i < length words then
        (if decisions ! i then
           (case collect_chunk words decisions (i + 1) [words ! i] of
              (chunk, j) \<Rightarrow>
                (let token = placeholder is_indictrans token_id;
                     kept_chunk = join_space chunk in
                 mask_loop is_indictrans words decisions j (token_id + 1)
                   (AList.update token kept_chunk kept_words) (masked_words @ [token])))
         else mask_loop is_indictrans words decisions (i + 1) token_id kept_words
                (masked_words @ [words ! i]))
      else (kept_words, masked_words))"
  by pat_completeness auto
termination
proof (relation "measure (\<lambda>(ind, words, decisions, i, rest). length words - i)", goal_cases)
  case 1
  then show ?case by simp
next
  case (2 ind words decisions i token_id kept_words masked_words chunk j token kept_chunk)
  have "i + 1 \<le> snd (collect_chunk words decisions (i + 1) [words ! i])"
    by (rule collect_chunk_ge)
  moreover have "snd (collect_chunk words decisions (i + 1) [words ! i]) = j"
    using 2(3) by (metis snd_conv)
  ultimately have "i < j" by simp
  with 2(1) show ?case by simp
next
  case 3
  then show ?case by auto
qed

declare mask_loop.simps [simp del]

text \<open>
  The specification of the masker, over the tokens paired with their decisions. A maximal
  keep-run starts at a keep token that has no keep token before it and takes the keep tokens
  that follow without a gap.
\<close>
function keep_runs :: "(string \<times> bool) list \<Rightarrow> string list list" where
  "keep_runs [] = []"
| "keep_runs ((w, k) # r) =
     (if k then (w # map fst (takeWhile snd r)) # keep_runs (dropWhile snd r) else keep_runs r)"
  by pat_completeness auto
termination
  by (relation "measure length") (auto simp: less_Suc_eq_le length_dropWhile_le)

text \<open>The number of run starts: keep tokens whose predecessor (if any) is not keep.\<close>
fun run_starts :: "bool \<Rightarrow> bool list \<Rightarrow> nat" where
  "run_starts prev [] = 0"
| "run_starts prev (k # ks) = (if k \<and> \<not> prev then 1 else 0) + run_starts k ks"

text \<open>The masked token list of the specification: each run gives way to its placeholder, the
  other tokens stay.\<close>
function masked_tokens :: "bool \<Rightarrow> nat \<Rightarrow> (string \<times> bool) list \<Rightarrow> string list" where
  "masked_tokens ind t [] = []"
| "masked_tokens ind t ((w, k) # r) =
     (if k then placeholder ind t # masked_tokens ind (t + 1) (dropWhile snd r)
      else w # masked_tokens ind t r)"
  by pat_completeness auto
termination
  by (relation "measure (\<lambda>(ind, t, zs). length zs)") (auto simp: less_Suc_eq_le length_dropWhile_le)


lemma run_starts_True_takeWhile:
  "run_starts True (map snd r) = run_starts False (map snd (dropWhile snd r))"
  by (induction r) auto

lemma length_keep_runs: "length (keep_runs zs) = run_starts False (map snd zs)"
proof (induction zs rule: keep_runs.induct)
  case 1
  then show ?case by simp
next
  case (2 w k r)
  then show ?case by (simp add: run_starts_True_takeWhile)
qed

lemma concat_keep_runs: "concat (keep_runs zs) = map fst (filter snd zs)"
proof (induction zs rule: keep_runs.induct)
  case 1
  then show ?case by simp
next
  case (2 w k r)
  have "map fst (filter snd r) = map fst (takeWhile snd r) @ map fst (filter snd (dropWhile snd r))"
    by (induction r) auto
  with 2 show ?case by simp
qed

lemma drop_zip_Cons:
  "j < length words \<Longrightarrow> length decisions = length words \<Longrightarrow>
   drop j (zip words decisions) = (words ! j, decisions ! j) # drop (Suc j) (zip words decisions)"
  by (simp add: Cons_nth_drop_Suc [symmetric])

lemma collect_chunk_eq:
  "length decisions = length words \<Longrightarrow>
   collect_chunk words decisions j chunk =
     (chunk @ map fst (takeWhile snd (drop j (zip words decisions))),
      j + length (takeWhile snd (drop j (zip words decisions))))"
proof (induction words decisions j chunk rule: collect_chunk.induct)
  case (1 words decisions j chunk)
  show ?case
  proof (cases "j < length words")
    case True
    note dz = drop_zip_Cons [OF True 1(2)]
    show ?thesis
    proof (cases "decisions ! j")
      case d: True
      from 1(1) [OF True d 1(2)] show ?thesis
        by (subst collect_chunk.simps) (simp add: True d dz)
    next
      case False
      then show ?thesis by (subst collect_chunk.simps) (simp add: True dz)
    qed
  next
    case False
    then show ?thesis using 1(2) by (subst collect_chunk.simps) simp
  qed
qed

lemma update_fresh: "k \<notin> fst ` set al \<Longrightarrow> AList.update k v al = al @ [(k, v)]"
  by (induction al) auto


lemma digit_chr_inj:
  assumes "a < 10" "b < 10" "digit_chr a = digit_chr b"
  shows "a = b"
proof -
  have d: "distinct ''0123456789''" by simp
  have len: "length ''0123456789'' = 10" by simp
  from assms(1,2) have "a < length ''0123456789''" "b < length ''0123456789''"
    by (simp_all only: len)
  from nth_eq_iff_index_eq [OF d this] assms(3) show ?thesis
    by (simp only: digit_chr_def)
qed

lemma str_nat_nonempty: "str_nat n \<noteq> []"
  by (subst str_nat.simps) simp

lemma str_nat_last: "last (str_nat n) = digit_chr (n mod 10)"
  by (subst str_nat.simps) simp

lemma str_nat_butlast: "butlast (str_nat n) = (if n < 10 then [] else str_nat (n div 10))"
  by (subst str_nat.simps) simp

lemma str_nat_inj: "str_nat m = str_nat n \<Longrightarrow> m = n"
proof (induction m arbitrary: n rule: less_induct)
  case (less m)
  from less.prems have l: "digit_chr (m mod 10) = digit_chr (n mod 10)"
    by (metis str_nat_last)
  then have mod: "m mod 10 = n mod 10"
    by (intro digit_chr_inj) simp_all
  from less.prems have b: "butlast (str_nat m) = butlast (str_nat n)" by simp
  show ?case
  proof (cases "m < 10")
    case True
    with b have "n < 10"
      using str_nat_nonempty [of "n div 10"] by (auto simp: str_nat_butlast split: if_splits)
    with True mod show ?thesis by simp
  next
    case False
    with b have n: "\<not> n < 10" and e: "str_nat (m div 10) = str_nat (n div 10)"
      using str_nat_nonempty [of "m div 10"] by (auto simp: str_nat_butlast split: if_splits)
    from False have "m div 10 < m" by simp
    from less.IH [OF this e] have "m div 10 = n div 10" .
    with mod show ?thesis by (metis div_mult_mod_eq)
  qed
qed

lemma str_nat_digits: "\<forall>c \<in> set (str_nat n). isdigit_chr c"
proof (induction n rule: str_nat.induct)
  case (1 n)
  have d: "isdigit_chr (digit_chr k)" if "k < 10" for k
  proof -
    from that have "k \<in> {0,1,2,3,4,5,6,7,8,9}" by auto
    then show ?thesis by (auto simp: digit_chr_def isdigit_chr_def)
  qed
  show ?case using 1 by (subst str_nat.simps) (auto simp: d)
qed

lemma placeholder_inj: "placeholder ind m = placeholder ind n \<Longrightarrow> m = n"
  by (auto simp: placeholder_def dest: str_nat_inj split: if_splits)


lemma mask_loop_eq:
  "length decisions = length words \<Longrightarrow>
   (\<forall>n\<ge>t. placeholder ind n \<notin> fst ` set kept) \<Longrightarrow>
   mask_loop ind words decisions i t kept masked =
     (kept @ zip (map (placeholder ind) [t..<t + length (keep_runs (drop i (zip words decisions)))])
                 (map join_space (keep_runs (drop i (zip words decisions)))),
      masked @ masked_tokens ind t (drop i (zip words decisions)))"
proof (induction ind words decisions i t kept masked rule: mask_loop.induct)
  case (1 ind words decisions i t kept masked)
  let ?zs = "zip words decisions"
  show ?case
  proof (cases "i < length words")
    case False
    then have "drop i ?zs = []" using 1(3) by simp
    then show ?thesis using False by (subst mask_loop.simps) simp
  next
    case True
    note dz = drop_zip_Cons [OF True 1(3)]
    show ?thesis
    proof (cases "decisions ! i")
      case False
      from 1(2) [OF True False 1(3) 1(4)] show ?thesis
        by (subst mask_loop.simps) (simp add: True False dz)
    next
      case d: True
      let ?r = "drop (Suc i) ?zs"
      let ?chunk = "words ! i # map fst (takeWhile snd ?r)"
      let ?j = "Suc i + length (takeWhile snd ?r)"
      have cc: "collect_chunk words decisions (i + 1) [words ! i] = (?chunk, ?j)"
        by (simp add: collect_chunk_eq [OF 1(3)])
      have dj: "drop ?j ?zs = dropWhile snd ?r"
        by (simp add: dropWhile_eq_drop add.commute)
      let ?kept = "AList.update (placeholder ind t) (join_space ?chunk) kept"
      have fresh_t: "placeholder ind t \<notin> fst ` set kept" using 1(4) by simp
      have upd: "?kept = kept @ [(placeholder ind t, join_space ?chunk)]"
        by (rule update_fresh [OF fresh_t])
      have fresh': "\<forall>n\<ge>t + 1. placeholder ind n \<notin> fst ` set ?kept"
        using 1(4) by (auto simp: upd dest: placeholder_inj)
      from 1(1) [OF True d cc [symmetric] refl refl 1(3) fresh']
      have IH: "mask_loop ind words decisions ?j (t + 1) ?kept (masked @ [placeholder ind t]) =
         (?kept @ zip (map (placeholder ind) [t + 1..<t + 1 + length (keep_runs (drop ?j ?zs))])
                 (map join_space (keep_runs (drop ?j ?zs))),
          (masked @ [placeholder ind t]) @ masked_tokens ind (t + 1) (drop ?j ?zs))" .
      have step: "mask_loop ind words decisions i t kept masked =
                  mask_loop ind words decisions ?j (t + 1) ?kept (masked @ [placeholder ind t])"
        using cc by (subst mask_loop.simps) (simp add: True d Let_def)
      have upt: "[t..<Suc (t + n)] = t # [Suc t..<Suc (t + n)]" for n
        by (simp add: upt_conv_Cons)
      show ?thesis
        unfolding step IH dj
        by (simp add: dz d upd upt del: upt_Suc)
    qed
  qed
qed


text \<open>
  \<^verbatim>\<open>re.sub(r'\s+(n\'t|\'s|\'re|\'ll|\'ve|\'d|\'m)', r'\1', masked_text)\<close>: a run of whitespace
  that is directly followed by one of the fragments is dropped. The pattern can only match at
  the first character of a maximal whitespace run (a shorter run is followed by whitespace), and
  the alternatives are tried in the order written.
\<close>
definition FRAGMENTS :: "string list" where
  "FRAGMENTS = [''n't'', CHR 0x27 # ''s'', CHR 0x27 # ''re'', CHR 0x27 # ''ll'',
                CHR 0x27 # ''ve'', CHR 0x27 # ''d'', CHR 0x27 # ''m'']"

definition match_fragment :: "string \<Rightarrow> string option" where
  "match_fragment s = find (startswith s) FRAGMENTS"

function collapse_contractions :: "string \<Rightarrow> string" where
  "collapse_contractions [] = []"
| "collapse_contractions (c # cs) =
     (if isspace_chr c then
        (case match_fragment (dropWhile isspace_chr cs) of
           Some f \<Rightarrow> f @ collapse_contractions (drop (length f) (dropWhile isspace_chr cs))
         | None \<Rightarrow> c # collapse_contractions cs)
      else c # collapse_contractions cs)"
  by pat_completeness auto
termination
  by (relation "measure length") (auto simp: less_Suc_eq_le intro: le_trans [OF _ length_dropWhile_le] diff_le_self)

text \<open>Stage 4 as a whole: the masked text and the placeholder map.\<close>
definition mask_chunks :: "bool \<Rightarrow> string list \<Rightarrow> bool list \<Rightarrow> string \<times> (string \<times> string) list" where
  "mask_chunks is_indictrans words decisions =
     (case mask_loop is_indictrans words decisions 0 0 [] [] of
        (kept_words, masked_words) \<Rightarrow>
          (collapse_contractions (join_space masked_words), kept_words))"

section \<open>The restorer and the romanizer (xglish\_mixer.py, lines 154--265)\<close>

text \<open>
  \<^verbatim>\<open>re.split(token_pattern, translated_markup, flags=re.IGNORECASE)\<close> for the two patterns of
  the source. Both patterns are read greedily without backtracking, which is exact for them:
  the character classes that follow each other are disjoint. A match at the head of \<open>s\<close>
  gives the captured digits and the text after the match.
\<close>
definition match_var :: "string \<Rightarrow> (string \<times> string) option" where
  "match_var s =
     (if lower (take 4 s) = ''var_'' then
        (let ds = takeWhile isdigit_chr (drop 4 s) in
         if ds = [] then None else Some (ds, dropWhile isdigit_chr (drop 4 s)))
      else None)"

definition match_braces :: "string \<Rightarrow> (string \<times> string) option" where
  "match_braces s =
     (if take 2 s = ''{{'' then
        (let r1 = dropWhile isspace_chr (drop 2 s);
             ds = takeWhile isdigit_chr r1;
             r2 = dropWhile isspace_chr (dropWhile isdigit_chr r1) in
         if ds \<noteq> [] \<and> take 2 r2 = ''}}'' then Some (ds, drop 2 r2) else None)
      else None)"

definition match_token :: "bool \<Rightarrow> string \<Rightarrow> (string \<times> string) option" where
  "match_token is_indictrans s = (if is_indictrans then match_braces s else match_var s)"

lemma match_token_shorter:
  assumes "match_token ind s = Some (ds, rest)"
  shows "length rest < length s"
proof (cases ind)
  case True
  let ?r1 = "dropWhile isspace_chr (drop 2 s)"
  let ?r2 = "dropWhile isspace_chr (dropWhile isdigit_chr ?r1)"
  from assms True have t: "take 2 s = ''{{''" and r: "rest = drop 2 ?r2"
    by (auto simp: match_token_def match_braces_def Let_def split: if_splits)
  have "length ?r2 \<le> length (dropWhile isdigit_chr ?r1)" by (rule length_dropWhile_le)
  also have "\<dots> \<le> length ?r1" by (rule length_dropWhile_le)
  also have "\<dots> \<le> length (drop 2 s)" by (rule length_dropWhile_le)
  finally have "length rest \<le> length s - 2" unfolding r by simp
  moreover have "2 \<le> length s"
  proof -
    have "length (take 2 s) = length ''{{''" by (simp only: t)
    then show ?thesis by simp
  qed
  ultimately show ?thesis by simp
next
  case False
  from assms False have t: "lower (take 4 s) = ''var_''"
    and r: "rest = dropWhile isdigit_chr (drop 4 s)"
    by (auto simp: match_token_def match_var_def Let_def split: if_splits)
  have "length rest \<le> length (drop 4 s)" unfolding r by (rule length_dropWhile_le)
  moreover have "4 \<le> length s"
  proof -
    have "length (lower (take 4 s)) = length ''var_''" by (simp only: t)
    then show ?thesis by (simp add: lower_def)
  qed
  ultimately show ?thesis by simp
qed


text \<open>
  The split itself: the text before a match, the captured digits, and so on; the pattern is
  tried at every position from the left, and the scan resumes after a match. \<open>lit\<close> is the
  literal text collected since the last match.
\<close>
function re_split_from :: "bool \<Rightarrow> string \<Rightarrow> string \<Rightarrow> string list" where
  "re_split_from is_indictrans lit [] = [lit]"
| "re_split_from is_indictrans lit (c # cs) =
     (case match_token is_indictrans (c # cs) of
        Some (ds, rest) \<Rightarrow> lit # ds # re_split_from is_indictrans [] rest
      | None \<Rightarrow> re_split_from is_indictrans (lit @ [c]) cs)"
  by pat_completeness auto
termination
  by (relation "measure (\<lambda>(ind, lit, s). length s)") (auto dest: match_token_shorter)

definition re_split :: "bool \<Rightarrow> string \<Rightarrow> string list" where
  "re_split is_indictrans translated_markup = re_split_from is_indictrans [] translated_markup"

text \<open>Failures of the external collaborators, as values.\<close>
datatype error =
  TransliterationFailure | TranslationFailure | NounMaskingFailure | TokenizerFailure | IndexError

text \<open>The transliteration library: source script, target scheme, text. It may raise.\<close>
type_synonym transliterator = "string \<Rightarrow> string \<Rightarrow> string \<Rightarrow> error + string"

text \<open>\<^verbatim>\<open>re.search(r'<\s*m[a]*sk[a]*', part, re.IGNORECASE)\<close>: the pattern at the head of \<open>s\<close>,
  then anywhere in the part.\<close>
definition mask_marker_at :: "string \<Rightarrow> bool" where
  "mask_marker_at s =
     (case s of
        [] \<Rightarrow> False
      | c # r \<Rightarrow> c = CHR ''<'' \<and>
          (case dropWhile isspace_chr r of
             [] \<Rightarrow> False
           | m # r2 \<Rightarrow> lower_chr m = CHR ''m'' \<and>
               lower (take 2 (dropWhile (\<lambda>x. lower_chr x = CHR ''a'') r2)) = ''sk''))"

fun has_mask :: "string \<Rightarrow> bool" where
  "has_mask [] = False"
| "has_mask (c # cs) = (mask_marker_at (c # cs) \<or> has_mask cs)"

text \<open>\<^verbatim>\<open>s.replace(old, new)\<close>: the occurrences of \<open>old\<close> from the left, without overlap. For
  an empty \<open>old\<close> Python puts \<open>new\<close> before every character and at the end.\<close>
function replace_nonempty :: "string \<Rightarrow> string \<Rightarrow> string \<Rightarrow> string" where
  "replace_nonempty old new [] = []"
| "replace_nonempty old new (c # cs) =
     (if old \<noteq> [] \<and> startswith (c # cs) old
      then new @ replace_nonempty old new (drop (length old) (c # cs))
      else c # replace_nonempty old new cs)"
  by pat_completeness auto
termination
  by (relation "measure (\<lambda>(old, new, s). length s)") auto

definition str_replace :: "string \<Rightarrow> string \<Rightarrow> string \<Rightarrow> string" where
  "str_replace old new s =
     (if old = [] then new @ concat (map (\<lambda>c. c # new) s) else replace_nonempty old new s)"

text \<open>\<^verbatim>\<open>for k, v in phonetic_map.items(): roman = roman.replace(k, v)\<close>\<close>
definition apply_phonetic :: "(string \<times> string) list \<Rightarrow> string \<Rightarrow> string" where
  "apply_phonetic phonetic_map roman = fold (\<lambda>(k, v) r. str_replace k v r) phonetic_map roman"

text \<open>A literal segment of the split (the \<^verbatim>\<open>else\<close> branch of the loop body).\<close>
definition restore_literal :: "transliterator \<Rightarrow> string \<Rightarrow> string \<Rightarrow> error + string" where
  "restore_literal transliterate target_lang part =
     (if strip part \<noteq> [] then
        (if has_mask part then Inr part
         else
           (case transliterate (get_script_name target_lang) ''RomanColloquial'' part of
              Inl e \<Rightarrow> Inl e
            | Inr roman \<Rightarrow>
                Inr (join_space (map (schwa_clean target_lang)
                       (split_ws (apply_phonetic (dict_get PHONETIC_FIXES target_lang []) roman))))))
      else Inr part)"

text \<open>A placeholder-id segment: the key is rebuilt from the digits and looked up with the
  default \<^verbatim>\<open>f"({part})"\<close>.\<close>
definition token_key :: "bool \<Rightarrow> string \<Rightarrow> string" where
  "token_key is_indictrans part = (if is_indictrans then ''{{'' @ part @ ''}}'' else ''VAR_'' @ part)"

definition restore_id :: "bool \<Rightarrow> (string \<times> string) list \<Rightarrow> string \<Rightarrow> string" where
  "restore_id is_indictrans kept_words part =
     dict_get kept_words (token_key is_indictrans part) (''('' @ part @ '')'')"

text \<open>The loop over the parts, with its flag \<open>is_id_part\<close>; a failure of the transliterator
  ends the loop, as the exception does.\<close>
fun restore_parts ::
  "transliterator \<Rightarrow> bool \<Rightarrow> string \<Rightarrow> (string \<times> string) list \<Rightarrow> bool \<Rightarrow> string list
   \<Rightarrow> error + string list" where
  "restore_parts transliterate is_indictrans target_lang kept_words is_id_part [] = Inr []"
| "restore_parts transliterate is_indictrans target_lang kept_words is_id_part (part # parts) =
     (if is_id_part then
        (case restore_parts transliterate is_indictrans target_lang kept_words False parts of
           Inl e \<Rightarrow> Inl e
         | Inr final_parts \<Rightarrow> Inr (restore_id is_indictrans kept_words part # final_parts))
      else
        (case restore_literal transliterate target_lang part of
           Inl e \<Rightarrow> Inl e
         | Inr p \<Rightarrow>
             (case restore_parts transliterate is_indictrans target_lang kept_words True parts of
                Inl e \<Rightarrow> Inl e
              | Inr final_parts \<Rightarrow> Inr (p # final_parts))))"

text \<open>The final loop: empty parts are dropped, and one space goes between two parts when the
  characters that meet are both alphanumeric. \<open>output\<close> ends in a non-empty part whenever it
  is not empty, so \<^verbatim>\<open>prev[-1]\<close> is in range.\<close>
fun join_parts :: "string list \<Rightarrow> string list \<Rightarrow> string list" where
  "join_parts output [] = output"
| "join_parts output (p # ps) =
     (if p = [] then join_parts output ps
      else if output \<noteq> [] \<and> isalnum_chr (last (last output)) \<and> isalnum_chr (hd p)
           then join_parts (output @ ['' '', p]) ps
           else join_parts (output @ [p]) ps)"

text \<open>Stage 6 as a whole, from the translated markup to the result string.\<close>
definition restore ::
  "transliterator \<Rightarrow> bool \<Rightarrow> string \<Rightarrow> (string \<times> string) list \<Rightarrow> string \<Rightarrow> error + string" where
  "restore transliterate is_indictrans target_lang kept_words translated_markup =
     (case restore_parts transliterate is_indictrans target_lang kept_words False
             (re_split is_indictrans translated_markup) of
        Inl e \<Rightarrow> Inl e
      | Inr final_parts \<Rightarrow> Inr (concat (join_parts [] final_parts)))"

text \<open>The segments at the odd positions of a split: the placeholder ids.\<close>
fun id_segments :: "'a list \<Rightarrow> 'a list" where
  "id_segments [] = []"
| "id_segments [x] = []"
| "id_segments (x # y # r) = y # id_segments r"

text \<open>The segments at the even positions: the literal text.\<close>
fun literal_segments :: "'a list \<Rightarrow> 'a list" where
  "literal_segments [] = []"
| "literal_segments [x] = [x]"
| "literal_segments (x # y # r) = x # literal_segments r"

lemma restore_parts_length:
  "restore_parts tr ind lang kept b parts = Inr fps \<Longrightarrow> length fps = length parts"
  by (induction parts arbitrary: b fps) (auto split: if_splits sum.splits)

lemma restore_parts_id_segments:
  "restore_parts tr ind lang kept False parts = Inr fps \<Longrightarrow>
   id_segments fps = map (restore_id ind kept) (id_segments parts)"
proof (induction parts arbitrary: fps rule: id_segments.induct)
  case 1
  then show ?case by simp
next
  case (2 x)
  then show ?case by (auto split: sum.splits)
next
  case (3 x y r)
  then show ?case by (auto split: sum.splits)
qed

lemma restore_parts_nth_id:
  "restore_parts tr ind lang kept b parts = Inr fps \<Longrightarrow> i < length parts \<Longrightarrow> odd i \<noteq> b \<Longrightarrow>
   fps ! i = restore_id ind kept (parts ! i)"
proof (induction parts arbitrary: b fps i)
  case Nil
  then show ?case by simp
next
  case (Cons p ps)
  show ?case
  proof (cases i)
    case 0
    with Cons.prems show ?thesis by (auto split: if_splits sum.splits)
  next
    case (Suc j)
    with Cons.prems Cons.IH [of "\<not> b" _ j] show ?thesis
      by (auto split: if_splits sum.splits)
  qed
qed

lemma restore_parts_total:
  "(\<forall>p \<in> set (if b then id_segments parts else literal_segments parts).
       \<exists>r. restore_literal tr lang p = Inr r) \<Longrightarrow>
   \<exists>fps. restore_parts tr ind lang kept b parts = Inr fps"
proof (induction parts arbitrary: b rule: id_segments.induct)
  case 1
  then show ?case by simp
next
  case (2 v)
  then show ?case by (cases b) auto
next
  case (3 x y r)
  from 3(2) have "\<forall>p \<in> set (if b then id_segments r else literal_segments r).
       \<exists>r. restore_literal tr lang p = Inr r" by (auto split: if_splits)
  from 3(1) [OF this] obtain fps where f: "restore_parts tr ind lang kept b r = Inr fps" ..
  show ?case
  proof (cases b)
    case True
    with 3(2) obtain ry where "restore_literal tr lang y = Inr ry" by auto
    with f True show ?thesis by simp
  next
    case False
    with 3(2) obtain rx where "restore_literal tr lang x = Inr rx" by auto
    with f False show ?thesis by simp
  qed
qed

lemma join_parts_extends: "\<exists>ext. join_parts out ps = out @ ext"
proof (induction ps arbitrary: out)
  case Nil
  then show ?case by simp
next
  case (Cons p ps)
  from Cons [of out] Cons [of "out @ ['' '', p]"] Cons [of "out @ [p]"]
  show ?case by (auto simp del: append_assoc simp add: append_assoc [symmetric]) (metis append_assoc)+
qed

lemma join_parts_member:
  "p \<in> set ps \<Longrightarrow> p \<noteq> [] \<Longrightarrow> p \<in> set (join_parts out ps)"
proof (induction ps arbitrary: out)
  case Nil
  then show ?case by simp
next
  case (Cons q ps)
  show ?case
  proof (cases "p = q")
    case True
    have "q \<in> set (join_parts (out @ ['' '', q]) ps)" "q \<in> set (join_parts (out @ [q]) ps)"
      using join_parts_extends [of "out @ ['' '', q]" ps] join_parts_extends [of "out @ [q]" ps]
      by auto
    with True Cons.prems(2) show ?thesis by simp
  next
    case False
    with Cons show ?thesis by simp
  qed
qed

lemma sublist_concat_member: "p \<in> set xs \<Longrightarrow> sublist p (concat xs)"
proof -
  assume "p \<in> set xs"
  then obtain a b where "xs = a @ p # b" by (auto simp: in_set_conv_decomp)
  then have "concat xs = concat a @ p @ concat b" by simp
  then show ?thesis unfolding sublist_def by blast
qed

lemma final_part_in_result:
  "p \<in> set fps \<Longrightarrow> sublist p (concat (join_parts [] fps))"
proof (cases "p = []")
  case True
  then show ?thesis by simp
next
  case False
  assume "p \<in> set fps"
  from join_parts_member [OF this False] show ?thesis by (rule sublist_concat_member)
qed


lemma restore_parts_nth_literal:
  "restore_parts tr ind lang kept b parts = Inr fps \<Longrightarrow> i < length parts \<Longrightarrow> odd i = b \<Longrightarrow>
   restore_literal tr lang (parts ! i) = Inr (fps ! i)"
proof (induction parts arbitrary: b fps i)
  case Nil
  then show ?case by simp
next
  case (Cons p ps)
  show ?case
  proof (cases i)
    case 0
    with Cons.prems show ?thesis by (auto split: if_splits sum.splits)
  next
    case (Suc j)
    with Cons.prems Cons.IH [of "\<not> b" _ j] show ?thesis
      by (auto split: if_splits sum.splits)
  qed
qed

lemma restore_literal_total:
  "(\<And>a b t. \<exists>r. tr a b t = Inr r) \<Longrightarrow> \<exists>r. restore_literal tr lang p = Inr r"
proof -
  assume a: "\<And>a b t. \<exists>r. tr a b t = Inr r"
  obtain r where "tr (get_script_name lang) ''RomanColloquial'' p = Inr r" using a by blast
  then show ?thesis by (simp add: restore_literal_def)
qed

lemma restore_id_missing:
  "map_of kept (token_key ind part) = None \<Longrightarrow> restore_id ind kept part = ''('' @ part @ '')''"
  by (simp add: restore_id_def dict_get_def)

lemma restore_id_present:
  "map_of kept (token_key ind part) = Some v \<Longrightarrow> restore_id ind kept part = v"
  by (simp add: restore_id_def dict_get_def)

text \<open>
  Claim C9. Let the translated markup be split into its segments, and let the transliterator
  return on the literal segments (the only step of the loop that can raise). Then the restorer
  returns: it produces one output part for every segment; for every placeholder-id segment
  whose rebuilt key is not in the placeholder map the part is the id in parentheses, and for
  one whose key is in the map the part is the mapped chunk text; every literal segment,
  wherever it stands, is processed as well; and every part stands in the result string.
\<close>
theorem restorer_defensive_lookup:
  assumes "\<forall>p \<in> set (literal_segments (re_split ind markup)). \<exists>r. restore_literal tr lang p = Inr r"
  shows "\<exists>fps. restore_parts tr ind lang kept False (re_split ind markup) = Inr fps
      \<and> restore tr ind lang kept markup = Inr (concat (join_parts [] fps))
      \<and> length fps = length (re_split ind markup)
      \<and> (\<forall>i < length fps. odd i \<and> map_of kept (token_key ind (re_split ind markup ! i)) = None
            \<longrightarrow> fps ! i = ''('' @ re_split ind markup ! i @ '')'')
      \<and> (\<forall>i < length fps. \<forall>v. odd i \<and> map_of kept (token_key ind (re_split ind markup ! i)) = Some v
            \<longrightarrow> fps ! i = v)
      \<and> (\<forall>i < length fps. even i
            \<longrightarrow> restore_literal tr lang (re_split ind markup ! i) = Inr (fps ! i))
      \<and> (\<forall>p \<in> set fps. sublist p (concat (join_parts [] fps)))"
proof -
  let ?parts = "re_split ind markup"
  from assms have "\<forall>p \<in> set (if False then id_segments ?parts else literal_segments ?parts).
       \<exists>r. restore_literal tr lang p = Inr r" by simp
  from restore_parts_total [OF this]
  obtain fps where f: "restore_parts tr ind lang kept False ?parts = Inr fps" by blast
  have len: "length fps = length ?parts" using f by (rule restore_parts_length)
  have r: "restore tr ind lang kept markup = Inr (concat (join_parts [] fps))"
    by (simp add: restore_def f)
  have missing: "fps ! i = ''('' @ ?parts ! i @ '')''"
    if "i < length fps" "odd i" "map_of kept (token_key ind (?parts ! i)) = None" for i
    using restore_parts_nth_id [OF f, of i] that len by (simp add: restore_id_missing)
  have present: "fps ! i = v"
    if "i < length fps" "odd i" "map_of kept (token_key ind (?parts ! i)) = Some v" for i v
    using restore_parts_nth_id [OF f, of i] that len by (simp add: restore_id_present)
  have lit: "restore_literal tr lang (?parts ! i) = Inr (fps ! i)" if "i < length fps" "even i" for i
    using restore_parts_nth_literal [OF f, of i] that len by simp
  have sub: "\<forall>p \<in> set fps. sublist p (concat (join_parts [] fps))"
    by (simp add: final_part_in_result)
  show ?thesis using f r len missing present lit sub by blast
qed

definition demo_transliterate :: transliterator where
  "demo_transliterate src tgt t = Inr t"

definition demo_kept :: "(string \<times> string) list" where
  "demo_kept = [(''VAR_0'', ''GPU card''), (''VAR_1'', ''API'')]"

lemma demo_split:
  "re_split False ''maim VAR_1ko VAR_7 phal'' = [''maim '', ''1'', ''ko '', ''7'', '' phal'']"
  by code_simp

lemma demo_restore:
  "restore demo_transliterate False ''hi'' demo_kept ''maim VAR_1ko VAR_7 phal''
     = Inr ''maim API ko(7)fal''"
  by code_simp

lemma demo_keys:
  "map_of demo_kept (token_key False ''7'') = None"
  "map_of demo_kept (token_key False ''1'') = Some ''API''"
  by (simp_all add: demo_kept_def token_key_def)

text \<open>The markup \<open>maim VAR_1ko VAR_7 phal\<close> against a map with the keys \<open>VAR_0\<close> and
  \<open>VAR_1\<close>: the unknown id 7 becomes \<open>(7)\<close>, and the segments after it are processed.\<close>
theorem restorer_defensive_lookup_witness:
  "\<exists>fps. restore_parts demo_transliterate False ''hi'' demo_kept False
            (re_split False ''maim VAR_1ko VAR_7 phal'') = Inr fps
     \<and> length fps = 5 \<and> fps ! 1 = ''API'' \<and> fps ! 3 = ''(7)''
     \<and> restore_literal demo_transliterate ''hi'' '' phal'' = Inr (fps ! 4)
     \<and> restore demo_transliterate False ''hi'' demo_kept ''maim VAR_1ko VAR_7 phal''
          = Inr ''maim API ko(7)fal''"
proof -
  let ?m = "''maim VAR_1ko VAR_7 phal''"
  have tot: "\<forall>p \<in> set (literal_segments (re_split False ?m)).
               \<exists>r. restore_literal demo_transliterate ''hi'' p = Inr r"
    by (intro ballI restore_literal_total) (simp add: demo_transliterate_def)
  from restorer_defensive_lookup [OF tot, of demo_kept]
  obtain fps where f: "restore_parts demo_transliterate False ''hi'' demo_kept False (re_split False ?m) = Inr fps"
    and len: "length fps = length (re_split False ?m)"
    and missing: "\<forall>i < length fps. odd i \<and> map_of demo_kept (token_key False (re_split False ?m ! i)) = None
            \<longrightarrow> fps ! i = ''('' @ re_split False ?m ! i @ '')''"
    and present: "\<forall>i < length fps. \<forall>v. odd i \<and> map_of demo_kept (token_key False (re_split False ?m ! i)) = Some v
            \<longrightarrow> fps ! i = v"
    and lit: "\<forall>i < length fps. even i
            \<longrightarrow> restore_literal demo_transliterate ''hi'' (re_split False ?m ! i) = Inr (fps ! i)"
    by blast
  have l5: "length fps = 5" using len by (simp add: demo_split)
  have 3: "fps ! 3 = ''(7)''"
    using missing [rule_format, of 3] l5 demo_keys(1) by (simp add: demo_split)
  have 1: "fps ! 1 = ''API''"
    using present [rule_format, of 1 "''API''"] l5 demo_keys(2) by (simp add: demo_split)
  have 4: "restore_literal demo_transliterate ''hi'' '' phal'' = Inr (fps ! 4)"
    using lit [rule_format, of 4] l5 by (simp add: demo_split)
  show ?thesis using f l5 1 3 4 demo_restore by blast
qed

text \<open>The chunks of the specification: the maximal keep-runs of the token list under the
  decision array, in order.\<close>
definition chunks :: "string list \<Rightarrow> bool list \<Rightarrow> string list list" where
  "chunks words decisions = keep_runs (zip words decisions)"

lemma mask_eq:
  assumes "length decisions = length words"
  shows "mask_chunks ind words decisions =
     (collapse_contractions (join_space (masked_tokens ind 0 (zip words decisions))),
      zip (map (placeholder ind) [0..<length (chunks words decisions)])
          (map join_space (chunks words decisions)))"
  using mask_loop_eq [OF assms, of 0 ind "[]" 0 "[]"]
  by (simp add: mask_chunks_def chunks_def)

lemma distinct_placeholders: "distinct (map (placeholder ind) [0..<n])"
  by (auto simp: distinct_map inj_on_def dest: placeholder_inj)

lemma lookup_placeholder:
  assumes "k < length vs"
  shows "map_of (zip (map (placeholder ind) [0..<length vs]) vs) (placeholder ind k) = Some (vs ! k)"
proof -
  have "map_of (zip (map (placeholder ind) [0..<length vs]) vs) (map (placeholder ind) [0..<length vs] ! k)
          = Some (vs ! k)"
    by (rule map_of_zip_nth) (simp_all add: assms distinct_placeholders)
  then show ?thesis using assms by simp
qed

lemma token_key_str_nat: "token_key ind (str_nat k) = placeholder ind k"
  by (simp add: token_key_def placeholder_def)

lemma set_id_segments: "set (id_segments xs) \<subseteq> set xs"
  by (induction xs rule: id_segments.induct) auto

lemma length_zip_placeholders [simp]:
  "length (zip (map (placeholder ind) [0..<length vs]) vs) = length vs"
  by simp

text \<open>
  Claim C1. For every token list with one decision per token: the placeholder map the masker
  returns lists, in order, the maximal keep-runs, the run number \<open>k\<close> (from 0) under the
  placeholder with id \<open>k\<close> and with the run's tokens joined by single spaces as its text; so
  the map has as many entries as there are maximal keep-runs (keep tokens not preceded by a
  keep token). And for every translated markup whose placeholder-id segments, as the restorer's
  split finds them, are the emitted ids, each exactly once and in any order, and every
  transliterator that returns on the literal segments, in every target language: the restorer
  returns, the parts it puts at the id segments are the texts of the named chunks, every
  chunk's text is restored exactly once, and it stands in the result string.
\<close>
theorem masker_restorer_round_trip:
  assumes "length decisions = length words"
    and "mask_chunks ind words decisions = (masked_text, kept_words)"
  shows "kept_words = zip (map (placeholder ind) [0..<length (chunks words decisions)])
                          (map join_space (chunks words decisions))
    \<and> length kept_words = length (chunks words decisions)
    \<and> length (chunks words decisions) = run_starts False decisions
    \<and> (\<forall>markup ks tr lang.
          id_segments (re_split ind markup) = map str_nat ks
          \<and> mset ks = mset [0..<length kept_words]
          \<and> (\<forall>p \<in> set (literal_segments (re_split ind markup)). \<exists>r. restore_literal tr lang p = Inr r)
          \<longrightarrow> (\<exists>fps. restore_parts tr ind lang kept_words False (re_split ind markup) = Inr fps
                 \<and> restore tr ind lang kept_words markup = Inr (concat (join_parts [] fps))
                 \<and> id_segments fps = map (\<lambda>k. join_space (chunks words decisions ! k)) ks
                 \<and> mset (id_segments fps) = mset (map join_space (chunks words decisions))
                 \<and> (\<forall>c \<in> set (chunks words decisions).
                       sublist (join_space c) (concat (join_parts [] fps)))))"
proof -
  let ?rs = "chunks words decisions"
  let ?n = "length ?rs"
  from assms(2) mask_eq [OF assms(1), of ind]
  have kept: "kept_words = zip (map (placeholder ind) [0..<?n]) (map join_space ?rs)" by simp
  have len: "length kept_words = ?n" unfolding kept by simp
  have count: "?n = run_starts False decisions"
    using assms(1) by (simp add: chunks_def length_keep_runs)
  have rt: "\<exists>fps. restore_parts tr ind lang kept_words False (re_split ind markup) = Inr fps
                 \<and> restore tr ind lang kept_words markup = Inr (concat (join_parts [] fps))
                 \<and> id_segments fps = map (\<lambda>k. join_space (?rs ! k)) ks
                 \<and> mset (id_segments fps) = mset (map join_space ?rs)
                 \<and> (\<forall>c \<in> set ?rs. sublist (join_space c) (concat (join_parts [] fps)))"
    if ids: "id_segments (re_split ind markup) = map str_nat ks"
      and once: "mset ks = mset [0..<length kept_words]"
      and lits: "\<forall>p \<in> set (literal_segments (re_split ind markup)). \<exists>r. restore_literal tr lang p = Inr r"
    for markup ks tr lang
  proof -
    let ?parts = "re_split ind markup"
    from lits have "\<forall>p \<in> set (if False then id_segments ?parts else literal_segments ?parts).
       \<exists>r. restore_literal tr lang p = Inr r" by simp
    from restore_parts_total [OF this]
    obtain fps where f: "restore_parts tr ind lang kept_words False ?parts = Inr fps" by blast
    have r: "restore tr ind lang kept_words markup = Inr (concat (join_parts [] fps))"
      by (simp add: restore_def f)
    have "set_mset (mset ks) = set_mset (mset [0..<length kept_words])" by (simp only: once)
    then have ks_set: "set ks = {0..<?n}" by (simp add: len)
    have one: "restore_id ind kept_words (str_nat k) = join_space (?rs ! k)" if "k \<in> set ks" for k
    proof -
      from that ks_set have k: "k < length (map join_space ?rs)" by simp
      from lookup_placeholder [OF k, of ind]
      show ?thesis using k by (simp add: kept restore_id_def dict_get_def token_key_str_nat)
    qed
    have "id_segments fps = map (restore_id ind kept_words) (map str_nat ks)"
      using restore_parts_id_segments [OF f] ids by simp
    also have "\<dots> = map (\<lambda>k. join_space (?rs ! k)) ks" using one by simp
    finally have segs: "id_segments fps = map (\<lambda>k. join_space (?rs ! k)) ks" .
    have "mset (id_segments fps) = image_mset (\<lambda>k. join_space (?rs ! k)) (mset ks)"
      unfolding segs by simp
    also have "\<dots> = mset (map (\<lambda>k. join_space (?rs ! k)) [0..<?n])"
      unfolding once len by simp
    also have "map (\<lambda>k. join_space (?rs ! k)) [0..<?n] = map join_space (map ((!) ?rs) [0..<?n])"
      by simp
    also have "map ((!) ?rs) [0..<?n] = ?rs" by (rule map_nth)
    finally have ms: "mset (id_segments fps) = mset (map join_space ?rs)" .
    have sub: "sublist (join_space c) (concat (join_parts [] fps))" if "c \<in> set ?rs" for c
    proof -
      from that have "join_space c \<in> set (map join_space ?rs)" by simp
      then have "join_space c \<in> set_mset (mset (map join_space ?rs))" by simp
      then have "join_space c \<in> set_mset (mset (id_segments fps))" by (simp only: ms)
      then have "join_space c \<in> set (id_segments fps)" by simp
      then have "join_space c \<in> set fps" by (rule subsetD [OF set_id_segments])
      then show ?thesis by (rule final_part_in_result)
    qed
    from sub have sub': "\<forall>c \<in> set ?rs. sublist (join_space c) (concat (join_parts [] fps))" ..
    show ?thesis by (intro exI [of _ fps] conjI; fact f r segs ms sub')
  qed
  have all: "\<forall>markup ks tr lang.
          id_segments (re_split ind markup) = map str_nat ks
          \<and> mset ks = mset [0..<length kept_words]
          \<and> (\<forall>p \<in> set (literal_segments (re_split ind markup)). \<exists>r. restore_literal tr lang p = Inr r)
          \<longrightarrow> (\<exists>fps. restore_parts tr ind lang kept_words False (re_split ind markup) = Inr fps
                 \<and> restore tr ind lang kept_words markup = Inr (concat (join_parts [] fps))
                 \<and> id_segments fps = map (\<lambda>k. join_space (?rs ! k)) ks
                 \<and> mset (id_segments fps) = mset (map join_space ?rs)
                 \<and> (\<forall>c \<in> set ?rs. sublist (join_space c) (concat (join_parts [] fps))))"
  proof (intro allI impI, elim conjE)
    fix markup ks tr lang
    assume "id_segments (re_split ind markup) = map str_nat ks"
      "mset ks = mset [0..<length kept_words]"
      "\<forall>p \<in> set (literal_segments (re_split ind markup)). \<exists>r. restore_literal tr lang p = Inr r"
    then show "\<exists>fps. restore_parts tr ind lang kept_words False (re_split ind markup) = Inr fps
                 \<and> restore tr ind lang kept_words markup = Inr (concat (join_parts [] fps))
                 \<and> id_segments fps = map (\<lambda>k. join_space (?rs ! k)) ks
                 \<and> mset (id_segments fps) = mset (map join_space ?rs)
                 \<and> (\<forall>c \<in> set ?rs. sublist (join_space c) (concat (join_parts [] fps)))"
      by (rule rt)
  qed
  show ?thesis by (intro conjI; fact kept len count all)
qed


definition demo_words :: "string list" where
  "demo_words = [''I'', ''love'', ''my'', ''GPU'', ''card'', ''and'', ''API'']"

definition demo_decisions :: "bool list" where
  "demo_decisions = [False, False, False, True, True, False, True]"

lemma demo_mask:
  "mask_chunks False demo_words demo_decisions
     = (''I love my VAR_0 and VAR_1'', [(''VAR_0'', ''GPU card''), (''VAR_1'', ''API'')])"
  by code_simp

lemma demo_chunks:
  "chunks demo_words demo_decisions = [[''GPU'', ''card''], [''API'']]"
  "run_starts False demo_decisions = 2"
  by code_simp+

lemma demo_markup:
  "id_segments (re_split False ''maim VAR_1ko VAR_0 pasanda'') = map str_nat [1, 0]"
  by code_simp

lemma demo_round_trip:
  "restore demo_transliterate False ''hi'' [(''VAR_0'', ''GPU card''), (''VAR_1'', ''API'')]
     ''maim VAR_1ko VAR_0 pasanda'' = Inr ''maim API ko GPU card pasanda''"
  by code_simp

text \<open>
  Seven tokens with the runs \<open>GPU card\<close> and \<open>API\<close>; the translated markup names the
  placeholders in the other order, and each chunk comes back with its exact text.
\<close>
theorem masker_restorer_round_trip_witness:
  "length demo_decisions = length demo_words
   \<and> mask_chunks False demo_words demo_decisions
        = (''I love my VAR_0 and VAR_1'', [(''VAR_0'', ''GPU card''), (''VAR_1'', ''API'')])
   \<and> length (chunks demo_words demo_decisions) = 2
   \<and> (\<exists>fps. restore_parts demo_transliterate False ''hi''
                [(''VAR_0'', ''GPU card''), (''VAR_1'', ''API'')] False
                (re_split False ''maim VAR_1ko VAR_0 pasanda'') = Inr fps
          \<and> id_segments fps = [''API'', ''GPU card''])
   \<and> restore demo_transliterate False ''hi'' [(''VAR_0'', ''GPU card''), (''VAR_1'', ''API'')]
        ''maim VAR_1ko VAR_0 pasanda'' = Inr ''maim API ko GPU card pasanda''"
proof -
  let ?kept = "[(''VAR_0'', ''GPU card''), (''VAR_1'', ''API'')]"
  let ?m = "''maim VAR_1ko VAR_0 pasanda''"
  have len: "length demo_decisions = length demo_words"
    by (simp add: demo_decisions_def demo_words_def)
  note rt = masker_restorer_round_trip [OF len demo_mask]
  have n: "length (chunks demo_words demo_decisions) = 2"
    using rt [THEN conjunct2, THEN conjunct1] by simp
  have once: "mset [1, 0] = mset [0..<length ?kept]"
    by (simp add: upt_rec)
  have lits: "\<forall>p \<in> set (literal_segments (re_split False ?m)).
               \<exists>r. restore_literal demo_transliterate ''hi'' p = Inr r"
    by (intro ballI restore_literal_total) (simp add: demo_transliterate_def)
  from rt [THEN conjunct2, THEN conjunct2, THEN conjunct2, THEN spec, THEN spec, THEN spec,
           THEN spec, THEN mp, OF conjI [OF demo_markup conjI [OF once lits]]]
  obtain fps where f: "restore_parts demo_transliterate False ''hi'' ?kept False (re_split False ?m) = Inr fps"
    and segs: "id_segments fps = map (\<lambda>k. join_space (chunks demo_words demo_decisions ! k)) [1, 0]"
    by blast
  from segs have "id_segments fps = [''API'', ''GPU card'']" by (simp add: demo_chunks)
  with f len demo_mask n demo_round_trip show ?thesis by blast
qed

section \<open>The translator service (translator\_service.py)\<close>

text \<open>
  The external collaborators of the service, each a function that returns or raises:
  the configured model name, LibreTranslate's language table and translators, the noun
  masking of nlp\_engine.py (built on the external taggers), and the IndicTrans2 pipeline
  (model loading, preprocessing, generation, decoding and postprocessing of a batch for a
  FLORES language code).
\<close>
record services =
  translation_model :: string
  load_languages :: "error + string list"
  get_translation :: "string \<Rightarrow> (string \<Rightarrow> error + string) option"
  extract_and_mask_nouns :: "string \<Rightarrow> error + string \<times> (string \<times> string) list"
  restore_nouns :: "string \<Rightarrow> (string \<times> string) list \<Rightarrow> error + string"
  indictrans2 :: "string list \<Rightarrow> string \<Rightarrow> error + string list"

text \<open>The body of the \<^verbatim>\<open>try\<close> block of \<open>translate_batch_libretranslate\<close>: the two early
  returns of the input text are results, every raise is an error.\<close>
definition libretranslate_try :: "services \<Rightarrow> string \<Rightarrow> string \<Rightarrow> bool \<Rightarrow> error + string" where
  "libretranslate_try svc text target_lang preserve_nouns =
     (case (if preserve_nouns then extract_and_mask_nouns svc text else Inr (text, [])) of
        Inl e \<Rightarrow> Inl e
      | Inr (masked_text, noun_map) \<Rightarrow>
          (case load_languages svc of
             Inl e \<Rightarrow> Inl e
           | Inr codes \<Rightarrow>
               if ''en'' \<notin> set codes \<or> target_lang \<notin> set codes then Inr text
               else
                 (case get_translation svc target_lang of
                    None \<Rightarrow> Inr text
                  | Some translator \<Rightarrow>
                      (case translator masked_text of
                         Inl e \<Rightarrow> Inl e
                       | Inr translated \<Rightarrow>
                           if preserve_nouns \<and> noun_map \<noteq> [] then restore_nouns svc translated noun_map
                           else Inr translated))))"

text \<open>The function itself: blank text is returned at once; \<^verbatim>\<open>except Exception\<close> returns the
  text.\<close>
definition translate_batch_libretranslate :: "services \<Rightarrow> string \<Rightarrow> string \<Rightarrow> bool \<Rightarrow> string" where
  "translate_batch_libretranslate svc text target_lang preserve_nouns =
     (if text = [] \<or> strip text = [] then text
      else (case libretranslate_try svc text target_lang preserve_nouns of
              Inl e \<Rightarrow> text
            | Inr translated \<Rightarrow> translated))"

definition ISO_TO_INDICTRANS2 :: "(string \<times> string) list" where
  "ISO_TO_INDICTRANS2 =
    [(''hi'', ''hin_Deva''), (''en'', ''eng_Latn''), (''bn'', ''ben_Beng''), (''ta'', ''tam_Taml''),
     (''te'', ''tel_Telu''), (''mr'', ''mar_Deva''), (''gu'', ''guj_Gujr''), (''kn'', ''kan_Knda''),
     (''ml'', ''mal_Mlym''), (''pa'', ''pan_Guru''), (''or'', ''ory_Orya''), (''as'', ''asm_Beng''),
     (''ur'', ''urd_Arab''), (''sa'', ''san_Deva''), (''ne'', ''npi_Deva''), (''sd'', ''snd_Arab''),
     (''ks'', ''kas_Arab''), (''gom'', ''gom_Deva''), (''mai'', ''mai_Deva''), (''doi'', ''doi_Deva''),
     (''brx'', ''brx_Deva''), (''mni'', ''mni_Beng'')]"

text \<open>The \<^verbatim>\<open>try\<close> block of \<open>translate_batch_indictrans2\<close>; \<^verbatim>\<open>translations[0]\<close> raises on an
  empty list.\<close>
definition indictrans2_try :: "services \<Rightarrow> string \<Rightarrow> string \<Rightarrow> bool \<Rightarrow> error + string" where
  "indictrans2_try svc text target_lang preserve_nouns =
     (case (if preserve_nouns then extract_and_mask_nouns svc text else Inr (text, [])) of
        Inl e \<Rightarrow> Inl e
      | Inr (masked_text, noun_map) \<Rightarrow>
          (case indictrans2 svc [masked_text] (dict_get ISO_TO_INDICTRANS2 target_lang ''hin_Deva'') of
             Inl e \<Rightarrow> Inl e
           | Inr translations \<Rightarrow>
               (case translations of
                  [] \<Rightarrow> Inl IndexError
                | translated # _ \<Rightarrow>
                    if preserve_nouns \<and> noun_map \<noteq> [] then restore_nouns svc translated noun_map
                    else Inr translated)))"

definition translate_batch_indictrans2 :: "services \<Rightarrow> string \<Rightarrow> string \<Rightarrow> bool \<Rightarrow> string" where
  "translate_batch_indictrans2 svc text target_lang preserve_nouns =
     (if text = [] \<or> strip text = [] then text
      else (case indictrans2_try svc text target_lang preserve_nouns of
              Inl e \<Rightarrow> translate_batch_libretranslate svc text target_lang preserve_nouns
            | Inr translated \<Rightarrow> translated))"

text \<open>\<open>translate_batch\<close>: the route to the selected model.\<close>
definition translate_batch :: "services \<Rightarrow> string \<Rightarrow> string \<Rightarrow> bool \<Rightarrow> string" where
  "translate_batch svc text target_lang preserve_nouns =
     (if translation_model svc = ''indictrans2''
      then translate_batch_indictrans2 svc text target_lang preserve_nouns
      else translate_batch_libretranslate svc text target_lang preserve_nouns)"

text \<open>\<open>translate_texts_indictrans2\<close>: blank texts are replaced by the empty string before the
  \<^verbatim>\<open>try\<close> block, and the handler returns the list so normalised.\<close>
definition translate_texts_indictrans2 :: "services \<Rightarrow> string list \<Rightarrow> string \<Rightarrow> string list" where
  "translate_texts_indictrans2 svc texts target_lang =
     (if texts = [] then []
      else
        (let texts = map (\<lambda>t. if t \<noteq> [] \<and> strip t \<noteq> [] then t else []) texts in
         case indictrans2 svc texts (dict_get ISO_TO_INDICTRANS2 target_lang ''hin_Deva'') of
           Inl e \<Rightarrow> texts
         | Inr translations \<Rightarrow> translations))"

subsection \<open>The batch processor (class IndicTransBatchProcessor)\<close>

text \<open>
  A queued request \<^verbatim>\<open>(req_id, text, target_lang, future)\<close>: the event is identified with its
  \<^verbatim>\<open>id\<close>, which is the request id.
\<close>
type_synonym request = "nat \<times> string \<times> string"

definition req_id_of :: "request \<Rightarrow> nat" where "req_id_of item = fst item"
definition text_of :: "request \<Rightarrow> string" where "text_of item = fst (snd item)"
definition lang_of :: "request \<Rightarrow> string" where "lang_of item = snd (snd item)"

text \<open>
  The state of the processor: its two parameters, the queue, the result dictionary and the
  set of events that are set. \<open>bulk_calls\<close> is a trace, not a field of the class: the
  arguments of every call of the batched translator, in order. The threads and the mutex are
  not part of the model: the worker is the only writer of the dictionary, and a caller reads
  its entry after its own event is set.
\<close>
record processor =
  batch_wait_ms :: real
  max_batch_size :: int
  queue :: "request list"
  results :: "nat \<rightharpoonup> string"
  fired :: "nat set"
  bulk_calls :: "(string list \<times> string) list"

text \<open>The batched translator as the worker calls it: it returns a list or raises.\<close>
type_synonym bulk_translator = "string list \<Rightarrow> string \<Rightarrow> error + string list"

text \<open>
  The inner \<^verbatim>\<open>while\<close> loop of the worker. \<open>clock k\<close> is the \<open>k\<close>-th reading of
  \<^verbatim>\<open>time.time()\<close> in the cycle (reading 0 is \<open>start_wait\<close>); the last argument lists the
  requests that the successive \<^verbatim>\<open>get_nowait\<close> calls find, and its end is \<^verbatim>\<open>queue.Empty\<close>.
\<close>
fun collect_more ::
  "int \<Rightarrow> real \<Rightarrow> (nat \<Rightarrow> real) \<Rightarrow> nat \<Rightarrow> request list \<Rightarrow> request list
   \<Rightarrow> request list \<times> request list" where
  "collect_more mbs wait clock k batch [] = (batch, [])"
| "collect_more mbs wait clock k batch (item # q) =
     (if int (length batch) < mbs \<and> clock k - clock 0 < wait
      then collect_more mbs wait clock (k + 1) (batch @ [item]) q
      else (batch, item # q))"

text \<open>The two distribution loops, one step each.\<close>
definition resolve :: "nat \<Rightarrow> string \<Rightarrow> processor \<Rightarrow> processor" where
  "resolve req_id r p = p\<lparr>results := (results p)(req_id \<mapsto> r), fired := insert req_id (fired p)\<rparr>"

definition distribute :: "string list \<Rightarrow> string list \<Rightarrow> nat \<times> request \<Rightarrow> processor \<Rightarrow> processor" where
  "distribute translations texts ix p =
     (case ix of (i, item) \<Rightarrow>
        resolve (req_id_of item) (if i < length translations then translations ! i else texts ! i) p)"

definition release :: "request \<Rightarrow> processor \<Rightarrow> processor" where
  "release item p = resolve (req_id_of item) (text_of item) p"

text \<open>The part of the worker under the comment \<^verbatim>\<open># Process batch\<close>.\<close>
definition process_batch :: "bulk_translator \<Rightarrow> request list \<Rightarrow> processor \<Rightarrow> processor" where
  "process_batch bulk batch p =
     (if batch = [] then p
      else
        (let texts = map text_of batch;
             lang = lang_of (batch ! 0);
             p = p\<lparr>bulk_calls := bulk_calls p @ [(texts, lang)]\<rparr> in
         case bulk texts lang of
           Inr translations \<Rightarrow> fold (distribute translations texts) (enumerate 0 batch) p
         | Inl e \<Rightarrow> fold release batch p))"

text \<open>The batch that one pass of the worker's outer loop collects from a queue state, and what
  stays in the queue; an empty queue is \<^verbatim>\<open>queue.Empty\<close> after the timeout.\<close>
definition take_batch :: "(nat \<Rightarrow> real) \<Rightarrow> processor \<Rightarrow> request list \<times> request list" where
  "take_batch clock p =
     (case queue p of
        [] \<Rightarrow> ([], [])
      | item # rest \<Rightarrow> collect_more (max_batch_size p) (batch_wait_ms p) clock 1 [item] rest)"

text \<open>One pass of the worker's outer loop.\<close>
definition worker_cycle :: "bulk_translator \<Rightarrow> (nat \<Rightarrow> real) \<Rightarrow> processor \<Rightarrow> processor" where
  "worker_cycle bulk clock p =
     (case queue p of
        [] \<Rightarrow> p
      | item # rest \<Rightarrow>
          (case take_batch clock p of
             (batch, remaining) \<Rightarrow> process_batch bulk batch (p\<lparr>queue := remaining\<rparr>)))"

text \<open>
  The worker's loop for \<open>n\<close> passes; \<open>clocks c\<close> is the clock of pass \<open>c\<close>.
\<close>
fun run_cycles :: "bulk_translator \<Rightarrow> (nat \<Rightarrow> nat \<Rightarrow> real) \<Rightarrow> nat \<Rightarrow> processor \<Rightarrow> processor" where
  "run_cycles bulk clocks 0 p = p"
| "run_cycles bulk clocks (Suc n) p =
     run_cycles bulk (\<lambda>c. clocks (Suc c)) n (worker_cycle bulk (clocks 0) p)"

text \<open>\<^verbatim>\<open>self.queue.put(...)\<close> and \<^verbatim>\<open>self.results.pop(req_id, text)\<close>.\<close>
definition enqueue :: "request \<Rightarrow> processor \<Rightarrow> processor" where
  "enqueue item p = p\<lparr>queue := queue p @ [item]\<rparr>"

definition pop_result :: "nat \<Rightarrow> string \<Rightarrow> processor \<Rightarrow> string \<times> processor" where
  "pop_result req_id text p =
     ((case results p req_id of Some r \<Rightarrow> r | None \<Rightarrow> text),
      p\<lparr>results := (results p)(req_id := None)\<rparr>)"

text \<open>The processor after the requests \<open>items\<close> joined the queue and the worker made one
  pass for every queued request.\<close>
definition serve :: "bulk_translator \<Rightarrow> (nat \<Rightarrow> nat \<Rightarrow> real) \<Rightarrow> processor \<Rightarrow> request list \<Rightarrow> processor" where
  "serve bulk clocks p items =
     (let p1 = fold enqueue items p in run_cycles bulk clocks (length (queue p1)) p1)"

text \<open>
  \<open>translate\<close>, the caller's side. An empty text is answered at once. Otherwise the request
  joins the queue; \<open>before\<close> and \<open>after\<close> are the requests of other callers that reach the
  queue before and after it while the worker is busy or waiting. The caller waits for its
  event and then pops its entry, with the text as the default. The result is \<open>None\<close> when the
  event is not set after as many passes of the worker as there are queued requests.
\<close>
definition translate ::
  "bulk_translator \<Rightarrow> (nat \<Rightarrow> nat \<Rightarrow> real) \<Rightarrow> processor \<Rightarrow> request list \<Rightarrow> request list
   \<Rightarrow> nat \<Rightarrow> string \<Rightarrow> string \<Rightarrow> string option" where
  "translate bulk clocks p before after req_id text target_lang =
     (if text = [] then Some []
      else
        (let p2 = serve bulk clocks p (before @ [(req_id, text, target_lang)] @ after) in
         if req_id \<in> fired p2 then Some (fst (pop_result req_id text p2)) else None))"

text \<open>What the request at position \<open>i\<close> of a batch is resolved with, in the words of the
  specification: the translation at its own position when the batched call returns one, its
  own text when the call returns too few results or fails.\<close>
definition batch_outcome :: "bulk_translator \<Rightarrow> request list \<Rightarrow> nat \<Rightarrow> string" where
  "batch_outcome bulk batch i =
     (case bulk (map text_of batch) (lang_of (hd batch)) of
        Inr translations \<Rightarrow> if i < length translations then translations ! i else text_of (batch ! i)
      | Inl e \<Rightarrow> text_of (batch ! i))"

text \<open>
  The batched translator of the source, \<open>translate_texts_indictrans2\<close>, as the worker's
  callee: it catches every failure of the IndicTrans2 pipeline itself, so it always returns a
  list. \<open>normalise_blank\<close> is what it does to each text before the \<^verbatim>\<open>try\<close> block.
\<close>
definition indictrans2_bulk :: "services \<Rightarrow> bulk_translator" where
  "indictrans2_bulk svc texts target_lang = Inr (translate_texts_indictrans2 svc texts target_lang)"

definition normalise_blank :: "string \<Rightarrow> string" where
  "normalise_blank t = (if t \<noteq> [] \<and> strip t \<noteq> [] then t else [])"


lemma collect_more_append:
  "collect_more mbs w clock k batch q = (b, r) \<Longrightarrow> b @ r = batch @ q"
  by (induction q arbitrary: k batch) (auto split: if_splits)

lemma collect_more_prefix:
  "collect_more mbs w clock k batch q = (b, r) \<Longrightarrow> \<exists>ext. b = batch @ ext"
proof (induction q arbitrary: k batch)
  case Nil
  then show ?case by simp
next
  case (Cons item q)
  show ?case
  proof (cases "int (length batch) < mbs \<and> clock k - clock 0 < w")
    case True
    with Cons.prems have "collect_more mbs w clock (k + 1) (batch @ [item]) q = (b, r)" by simp
    from Cons.IH [OF this] show ?thesis by auto
  next
    case False
    with Cons.prems show ?thesis by auto
  qed
qed

lemma collect_more_bound:
  "collect_more mbs w clock k batch q = (b, r) \<Longrightarrow> int (length batch) \<le> m \<Longrightarrow> mbs \<le> m \<Longrightarrow>
   int (length b) \<le> m"
proof (induction q arbitrary: k batch)
  case Nil
  then show ?case by simp
next
  case (Cons item q)
  show ?case
  proof (cases "int (length batch) < mbs \<and> clock k - clock 0 < w")
    case True
    with Cons.prems have c: "collect_more mbs w clock (k + 1) (batch @ [item]) q = (b, r)" by simp
    from True Cons.prems(3) have "int (length (batch @ [item])) \<le> m" by simp
    from Cons.IH [OF c this Cons.prems(3)] show ?thesis .
  next
    case False
    with Cons.prems show ?thesis by auto
  qed
qed

lemma collect_more_time:
  "collect_more mbs w clock k batch q = (b, r) \<Longrightarrow> length batch \<le> j \<Longrightarrow> j < length b \<Longrightarrow>
   clock (k + (j - length batch)) - clock 0 < w"
proof (induction q arbitrary: k batch)
  case Nil
  then show ?case by simp
next
  case (Cons item q)
  show ?case
  proof (cases "int (length batch) < mbs \<and> clock k - clock 0 < w")
    case True
    with Cons.prems have c: "collect_more mbs w clock (k + 1) (batch @ [item]) q = (b, r)" by simp
    show ?thesis
    proof (cases "j = length batch")
      case j: True
      with True show ?thesis by simp
    next
      case False
      with Cons.prems(2) have "length (batch @ [item]) \<le> j" by simp
      from Cons.IH [OF c this Cons.prems(3)]
      have t: "clock (k + 1 + (j - length (batch @ [item]))) - clock 0 < w" .
      have e: "k + 1 + (j - length (batch @ [item])) = k + (j - length batch)"
        using False Cons.prems(2) by simp
      from t show ?thesis unfolding e .
    qed
  next
    case False
    with Cons.prems show ?thesis by auto
  qed
qed


lemma resolve_simps [simp]:
  "results (resolve rid r p) = (results p)(rid \<mapsto> r)"
  "fired (resolve rid r p) = insert rid (fired p)"
  "queue (resolve rid r p) = queue p"
  "bulk_calls (resolve rid r p) = bulk_calls p"
  "max_batch_size (resolve rid r p) = max_batch_size p"
  "batch_wait_ms (resolve rid r p) = batch_wait_ms p"
  by (simp_all add: resolve_def)

lemma distribute_pair:
  "distribute tr texts (i, item) p =
     resolve (req_id_of item) (if i < length tr then tr ! i else texts ! i) p"
  by (simp add: distribute_def)

lemma release_item: "release item p = resolve (req_id_of item) (text_of item) p"
  by (simp add: release_def)

lemma fold_distribute_frame:
  "queue (fold (distribute tr texts) ixs p) = queue p
   \<and> bulk_calls (fold (distribute tr texts) ixs p) = bulk_calls p
   \<and> max_batch_size (fold (distribute tr texts) ixs p) = max_batch_size p
   \<and> batch_wait_ms (fold (distribute tr texts) ixs p) = batch_wait_ms p"
  by (induction ixs arbitrary: p) (auto simp: distribute_pair)

lemma fold_release_frame:
  "queue (fold release batch p) = queue p
   \<and> bulk_calls (fold release batch p) = bulk_calls p
   \<and> max_batch_size (fold release batch p) = max_batch_size p
   \<and> batch_wait_ms (fold release batch p) = batch_wait_ms p"
  by (induction batch arbitrary: p) (auto simp: release_item)

lemma fold_distribute_other:
  "rid \<notin> req_id_of ` set batch \<Longrightarrow>
   results (fold (distribute tr texts) (enumerate n batch) p) rid = results p rid
   \<and> (rid \<in> fired (fold (distribute tr texts) (enumerate n batch) p)) = (rid \<in> fired p)"
  by (induction batch arbitrary: n p) (auto simp: distribute_pair)

lemma fold_release_other:
  "rid \<notin> req_id_of ` set batch \<Longrightarrow>
   results (fold release batch p) rid = results p rid
   \<and> (rid \<in> fired (fold release batch p)) = (rid \<in> fired p)"
  by (induction batch arbitrary: p) (auto simp: release_item)

lemma fold_distribute_fired:
  "rid \<in> fired p \<Longrightarrow> rid \<in> fired (fold (distribute tr texts) ixs p)"
  by (induction ixs arbitrary: p) (auto simp: distribute_pair)

lemma fold_release_fired:
  "rid \<in> fired p \<Longrightarrow> rid \<in> fired (fold release batch p)"
  by (induction batch arbitrary: p) (auto simp: release_item)

lemma fold_distribute_at:
  "distinct (map req_id_of batch) \<Longrightarrow> i < length batch \<Longrightarrow>
   results (fold (distribute tr texts) (enumerate n batch) p) (req_id_of (batch ! i))
     = Some (if n + i < length tr then tr ! (n + i) else texts ! (n + i))
   \<and> req_id_of (batch ! i) \<in> fired (fold (distribute tr texts) (enumerate n batch) p)"
proof (induction batch arbitrary: n p i)
  case Nil
  then show ?case by simp
next
  case (Cons item batch)
  show ?case
  proof (cases i)
    case 0
    from Cons.prems(1) have "req_id_of item \<notin> req_id_of ` set batch" by simp
    from fold_distribute_other [OF this, of tr texts "Suc n" "distribute tr texts (n, item) p"]
    show ?thesis using 0 by (simp add: distribute_pair [of tr texts n item p])
  next
    case (Suc j)
    with Cons.prems have "distinct (map req_id_of batch)" "j < length batch" by simp_all
    from Cons.IH [OF this, of "Suc n" "distribute tr texts (n, item) p"]
    show ?thesis using Suc by simp
  qed
qed

lemma fold_release_at:
  "distinct (map req_id_of batch) \<Longrightarrow> i < length batch \<Longrightarrow>
   results (fold release batch p) (req_id_of (batch ! i)) = Some (text_of (batch ! i))
   \<and> req_id_of (batch ! i) \<in> fired (fold release batch p)"
proof (induction batch arbitrary: p i)
  case Nil
  then show ?case by simp
next
  case (Cons item batch)
  show ?case
  proof (cases i)
    case 0
    from Cons.prems(1) have "req_id_of item \<notin> req_id_of ` set batch" by simp
    from fold_release_other [OF this, of "release item p"]
    show ?thesis using 0 by (simp add: release_item [of item p])
  next
    case (Suc j)
    with Cons.prems have "distinct (map req_id_of batch)" "j < length batch" by simp_all
    from Cons.IH [OF this, of "release item p"]
    show ?thesis using Suc by simp
  qed
qed

lemma process_batch_frame:
  "queue (process_batch bulk batch p) = queue p
   \<and> max_batch_size (process_batch bulk batch p) = max_batch_size p
   \<and> batch_wait_ms (process_batch bulk batch p) = batch_wait_ms p"
  by (simp add: process_batch_def Let_def fold_distribute_frame fold_release_frame split: sum.splits)

lemma process_batch_calls:
  "batch \<noteq> [] \<Longrightarrow>
   bulk_calls (process_batch bulk batch p) = bulk_calls p @ [(map text_of batch, lang_of (hd batch))]"
  by (simp add: process_batch_def Let_def fold_distribute_frame fold_release_frame hd_conv_nth
      split: sum.splits)

lemma process_batch_other:
  "rid \<notin> req_id_of ` set batch \<Longrightarrow>
   results (process_batch bulk batch p) rid = results p rid
   \<and> (rid \<in> fired (process_batch bulk batch p)) = (rid \<in> fired p)"
  by (simp add: process_batch_def Let_def fold_distribute_other fold_release_other split: sum.splits)

lemma process_batch_fired:
  "rid \<in> fired p \<Longrightarrow> rid \<in> fired (process_batch bulk batch p)"
  by (simp add: process_batch_def Let_def fold_distribute_fired fold_release_fired split: sum.splits)

lemma process_batch_at:
  assumes "distinct (map req_id_of batch)" "i < length batch"
  shows "results (process_batch bulk batch p) (req_id_of (batch ! i)) = Some (batch_outcome bulk batch i)
   \<and> req_id_of (batch ! i) \<in> fired (process_batch bulk batch p)"
proof -
  from assms(2) have ne: "batch \<noteq> []" by auto
  let ?p = "p\<lparr>bulk_calls := bulk_calls p @ [(map text_of batch, lang_of (batch ! 0))]\<rparr>"
  show ?thesis
  proof (cases "bulk (map text_of batch) (lang_of (batch ! 0))")
    case (Inl e)
    from fold_release_at [OF assms, of ?p] Inl ne show ?thesis
      by (simp add: process_batch_def batch_outcome_def hd_conv_nth Let_def)
  next
    case (Inr tr)
    from fold_distribute_at [OF assms, of tr "map text_of batch" 0 ?p] Inr ne assms(2) show ?thesis
      by (simp add: process_batch_def batch_outcome_def hd_conv_nth Let_def)
  qed
qed


lemma take_batch_facts:
  assumes "queue p = item # rest" "take_batch clock p = (batch, remaining)"
  shows "batch @ remaining = queue p" "batch \<noteq> []" "hd batch = item"
    "1 \<le> max_batch_size p \<Longrightarrow> int (length batch) \<le> max_batch_size p"
    "\<And>j. 1 \<le> j \<Longrightarrow> j < length batch \<Longrightarrow> clock j - clock 0 < batch_wait_ms p"
proof -
  from assms have c: "collect_more (max_batch_size p) (batch_wait_ms p) clock 1 [item] rest
                       = (batch, remaining)"
    by (simp add: take_batch_def)
  from collect_more_append [OF c] assms(1) show "batch @ remaining = queue p" by simp
  from collect_more_prefix [OF c] show "batch \<noteq> []" "hd batch = item" by auto
  show "int (length batch) \<le> max_batch_size p" if "1 \<le> max_batch_size p"
    using collect_more_bound [OF c, of "max_batch_size p"] that by simp
  show "clock j - clock 0 < batch_wait_ms p" if "1 \<le> j" "j < length batch" for j
    using collect_more_time [OF c, of j] that by simp
qed

lemma worker_cycle_eq:
  assumes "queue p = item # rest" "take_batch clock p = (batch, remaining)"
  shows "worker_cycle bulk clock p = process_batch bulk batch (p\<lparr>queue := remaining\<rparr>)"
  using assms by (simp add: worker_cycle_def)

lemma worker_cycle_queue:
  assumes "queue p = item # rest" "take_batch clock p = (batch, remaining)"
  shows "queue (worker_cycle bulk clock p) = remaining"
  by (simp add: worker_cycle_eq [OF assms] process_batch_frame)

lemma worker_cycle_idle: "queue p = [] \<Longrightarrow> worker_cycle bulk clock p = p"
  by (simp add: worker_cycle_def)

lemma run_cycles_idle: "queue p = [] \<Longrightarrow> run_cycles bulk clocks n p = p"
  by (induction n arbitrary: clocks) (simp_all add: worker_cycle_idle)

lemma run_cycles_other:
  "rid \<notin> req_id_of ` set (queue p) \<Longrightarrow>
   results (run_cycles bulk clocks n p) rid = results p rid
   \<and> (rid \<in> fired (run_cycles bulk clocks n p)) = (rid \<in> fired p)"
proof (induction n arbitrary: clocks p)
  case 0
  then show ?case by simp
next
  case (Suc n)
  show ?case
  proof (cases "queue p")
    case Nil
    then show ?thesis by (simp add: worker_cycle_idle run_cycles_idle)
  next
    case (Cons item rest)
    obtain batch remaining where t: "take_batch (clocks 0) p = (batch, remaining)"
      by (cases "take_batch (clocks 0) p")
    note f = take_batch_facts(1) [OF Cons t]
    let ?p = "worker_cycle bulk (clocks 0) p"
    have q: "queue ?p = remaining" by (rule worker_cycle_queue [OF Cons t])
    from Suc.prems f have nb: "rid \<notin> req_id_of ` set batch" and nr: "rid \<notin> req_id_of ` set remaining"
      by (metis Un_iff image_Un set_append)+
    from nr q have "rid \<notin> req_id_of ` set (queue ?p)" by simp
    from Suc.IH [OF this, of "\<lambda>c. clocks (Suc c)"]
    have "results (run_cycles bulk clocks (Suc n) p) rid = results ?p rid
        \<and> (rid \<in> fired (run_cycles bulk clocks (Suc n) p)) = (rid \<in> fired ?p)" by simp
    moreover from process_batch_other [OF nb, of bulk "p\<lparr>queue := remaining\<rparr>"]
    have "results ?p rid = results p rid \<and> (rid \<in> fired ?p) = (rid \<in> fired p)"
      by (simp add: worker_cycle_eq [OF Cons t])
    ultimately show ?thesis by simp
  qed
qed

lemma worker_cycle_calls:
  assumes "queue p = item # rest" "take_batch clock p = (batch, remaining)"
  shows "bulk_calls (worker_cycle bulk clock p) = bulk_calls p @ [(map text_of batch, lang_of (hd batch))]"
  using process_batch_calls [OF take_batch_facts(2) [OF assms], of bulk "p\<lparr>queue := remaining\<rparr>"]
  by (simp add: worker_cycle_eq [OF assms])

lemma run_cycles_calls_mono:
  "c \<in> set (bulk_calls p) \<Longrightarrow> c \<in> set (bulk_calls (run_cycles bulk clocks n p))"
proof (induction n arbitrary: clocks p)
  case 0
  then show ?case by simp
next
  case (Suc n)
  show ?case
  proof (cases "queue p")
    case Nil
    with Suc.prems show ?thesis by (simp add: worker_cycle_idle run_cycles_idle)
  next
    case (Cons item rest)
    obtain batch remaining where t: "take_batch (clocks 0) p = (batch, remaining)"
      by (cases "take_batch (clocks 0) p")
    from Suc.prems have "c \<in> set (bulk_calls (worker_cycle bulk (clocks 0) p))"
      by (simp add: worker_cycle_calls [OF Cons t])
    from Suc.IH [OF this] show ?thesis by simp
  qed
qed

lemma run_cycles_serves:
  assumes "distinct (map req_id_of (queue p))" "k < length (queue p)" "length (queue p) \<le> n"
  shows "\<exists>batch i. i < length batch \<and> batch ! i = queue p ! k
      \<and> (map text_of batch, lang_of (hd batch)) \<in> set (bulk_calls (run_cycles bulk clocks n p))
      \<and> req_id_of (queue p ! k) \<in> fired (run_cycles bulk clocks n p)
      \<and> results (run_cycles bulk clocks n p) (req_id_of (queue p ! k)) = Some (batch_outcome bulk batch i)"
  using assms
proof (induction n arbitrary: clocks p k)
  case 0
  then show ?case by simp
next
  case (Suc n)
  from Suc.prems(2) obtain item rest where Cons: "queue p = item # rest"
    by (cases "queue p") auto
  obtain batch remaining where t: "take_batch (clocks 0) p = (batch, remaining)"
    by (cases "take_batch (clocks 0) p")
  note f = take_batch_facts(1,2) [OF Cons t]
  let ?p = "worker_cycle bulk (clocks 0) p"
  let ?cl = "\<lambda>c. clocks (Suc c)"
  have q: "queue ?p = remaining" by (rule worker_cycle_queue [OF Cons t])
  have run: "run_cycles bulk clocks (Suc n) p = run_cycles bulk ?cl n ?p" by simp
  from Suc.prems(1) f(1) have d: "distinct (map req_id_of batch)" "distinct (map req_id_of remaining)"
    and disj: "req_id_of ` set batch \<inter> req_id_of ` set remaining = {}"
    by (metis distinct_append map_append set_map)+
  show ?case
  proof (cases "k < length batch")
    case True
    then have e: "queue p ! k = batch ! k" using f(1) by (metis nth_append)
    from process_batch_at [OF d(1) True, of bulk "p\<lparr>queue := remaining\<rparr>"]
    have now: "results ?p (req_id_of (batch ! k)) = Some (batch_outcome bulk batch k)"
      "req_id_of (batch ! k) \<in> fired ?p"
      by (simp_all add: worker_cycle_eq [OF Cons t])
    from True disj have "req_id_of (batch ! k) \<notin> req_id_of ` set (queue ?p)"
      unfolding q using nth_mem [OF True] by blast
    from run_cycles_other [OF this, of bulk ?cl n] now
    have later: "results (run_cycles bulk ?cl n ?p) (req_id_of (batch ! k)) = Some (batch_outcome bulk batch k)"
      "req_id_of (batch ! k) \<in> fired (run_cycles bulk ?cl n ?p)"
      by simp_all
    have "(map text_of batch, lang_of (hd batch)) \<in> set (bulk_calls ?p)"
      by (simp add: worker_cycle_calls [OF Cons t])
    then have call: "(map text_of batch, lang_of (hd batch)) \<in> set (bulk_calls (run_cycles bulk ?cl n ?p))"
      by (rule run_cycles_calls_mono)
    show ?thesis unfolding run e using True later call by blast
  next
    case False
    then have e: "queue p ! k = queue ?p ! (k - length batch)"
      unfolding q using f(1) by (metis nth_append)
    have len: "length (queue p) = length batch + length remaining"
      using f(1) by (metis length_append)
    from f(2) have "1 \<le> length batch" by (cases batch) simp_all
    with len Suc.prems(2,3) False have k: "k - length batch < length (queue ?p)"
      and n: "length (queue ?p) \<le> n" unfolding q by arith+
    from d(2) have "distinct (map req_id_of (queue ?p))" unfolding q .
    from Suc.IH [OF this k n, of ?cl] show ?thesis unfolding run e .
  qed
qed



lemma fold_enqueue_queue: "queue (fold enqueue items p) = queue p @ items"
  by (induction items arbitrary: p) (simp_all add: enqueue_def)

lemma pop_result_fst:
  "results p rid = Some r \<Longrightarrow> fst (pop_result rid text p) = r"
  by (simp add: pop_result_def)


lemma translate_texts_indictrans2_fail_open:
  assumes "indictrans2 svc (map normalise_blank texts) (dict_get ISO_TO_INDICTRANS2 target_lang ''hin_Deva'') = Inl e"
  shows "translate_texts_indictrans2 svc texts target_lang = map normalise_blank texts"
proof -
  have n: "normalise_blank = (\<lambda>t. if t \<noteq> [] \<and> strip t \<noteq> [] then t else [])"
    by (rule ext) (simp add: normalise_blank_def)
  show ?thesis using assms unfolding n
    by (cases "texts = []") (simp_all add: translate_texts_indictrans2_def Let_def)
qed

text \<open>
  The \<^verbatim>\<open>except\<close> branch of the worker: should the batched call raise, every request of the batch
  is resolved with its own text. With \<open>translate_texts_indictrans2\<close> as the callee the branch is
  not reached, since that function returns a list on every list of strings.
\<close>
lemma worker_handler_releases:
  assumes "distinct (map req_id_of batch)" and "i < length batch"
    and "bulk (map text_of batch) (lang_of (hd batch)) = Inl e"
  shows "req_id_of (batch ! i) \<in> fired (process_batch bulk batch p)"
    and "results (process_batch bulk batch p) (req_id_of (batch ! i)) = Some (text_of (batch ! i))"
  using process_batch_at [OF assms(1,2), of bulk p] assms(3)
  by (simp_all add: batch_outcome_def)

text \<open>
  Claim C6, as the code has it. The single-item operation is \<open>translate_batch\<close>, which
  returns a string whatever its collaborators do. With LibreTranslate selected, it returns its input text when any step
  of the \<^verbatim>\<open>try\<close> block raises. With IndicTrans2 selected, a failure of the IndicTrans2 attempt
  makes it return what the LibreTranslate path returns for the same text: that is the input
  text when LibreTranslate fails as well, and LibreTranslate's translation otherwise. On the
  batched path the worker calls \<open>translate_texts_indictrans2\<close>, which does not raise: when the
  IndicTrans2 pipeline fails on a batch, every request of the batch (their ids being distinct)
  has its event set and is resolved with its own text when that text is not blank, and with
  the empty string when it is blank; this is what its caller pops.
\<close>
theorem fail_open_translation:
  "(\<forall>e. translation_model svc \<noteq> ''indictrans2''
         \<and> libretranslate_try svc text target_lang preserve_nouns = Inl e
        \<longrightarrow> translate_batch svc text target_lang preserve_nouns = text)
   \<and> (\<forall>e. translation_model svc = ''indictrans2''
         \<and> indictrans2_try svc text target_lang preserve_nouns = Inl e
        \<longrightarrow> translate_batch svc text target_lang preserve_nouns
              = translate_batch_libretranslate svc text target_lang preserve_nouns)
   \<and> (\<forall>e e'. translation_model svc = ''indictrans2''
         \<and> indictrans2_try svc text target_lang preserve_nouns = Inl e
         \<and> libretranslate_try svc text target_lang preserve_nouns = Inl e'
        \<longrightarrow> translate_batch svc text target_lang preserve_nouns = text)
   \<and> (\<forall>e i. distinct (map req_id_of batch) \<and> i < length batch
         \<and> indictrans2 svc (map normalise_blank (map text_of batch))
              (dict_get ISO_TO_INDICTRANS2 (lang_of (hd batch)) ''hin_Deva'') = Inl e
        \<longrightarrow> req_id_of (batch ! i) \<in> fired (process_batch (indictrans2_bulk svc) batch p)
            \<and> results (process_batch (indictrans2_bulk svc) batch p) (req_id_of (batch ! i))
                = Some (if strip (text_of (batch ! i)) = [] then [] else text_of (batch ! i))
            \<and> fst (pop_result (req_id_of (batch ! i)) (text_of (batch ! i))
                      (process_batch (indictrans2_bulk svc) batch p))
                = (if strip (text_of (batch ! i)) = [] then [] else text_of (batch ! i)))"
proof -
  have a: "translate_batch svc text target_lang preserve_nouns = text"
    if "translation_model svc \<noteq> ''indictrans2''"
      "libretranslate_try svc text target_lang preserve_nouns = Inl e" for e
    using that by (simp add: translate_batch_def translate_batch_libretranslate_def)
  have b: "translate_batch svc text target_lang preserve_nouns
              = translate_batch_libretranslate svc text target_lang preserve_nouns"
    if "translation_model svc = ''indictrans2''"
      "indictrans2_try svc text target_lang preserve_nouns = Inl e" for e
    using that
    by (simp add: translate_batch_def translate_batch_indictrans2_def
        translate_batch_libretranslate_def)
  have c: "translate_batch svc text target_lang preserve_nouns = text"
    if "translation_model svc = ''indictrans2''"
      "indictrans2_try svc text target_lang preserve_nouns = Inl e"
      "libretranslate_try svc text target_lang preserve_nouns = Inl e'" for e e'
    using that
    by (simp add: translate_batch_def translate_batch_indictrans2_def
        translate_batch_libretranslate_def)
  have d: "req_id_of (batch ! i) \<in> fired (process_batch (indictrans2_bulk svc) batch p)
            \<and> results (process_batch (indictrans2_bulk svc) batch p) (req_id_of (batch ! i))
                = Some (if strip (text_of (batch ! i)) = [] then [] else text_of (batch ! i))
            \<and> fst (pop_result (req_id_of (batch ! i)) (text_of (batch ! i))
                      (process_batch (indictrans2_bulk svc) batch p))
                = (if strip (text_of (batch ! i)) = [] then [] else text_of (batch ! i))"
    if "distinct (map req_id_of batch)" "i < length batch"
      "indictrans2 svc (map normalise_blank (map text_of batch))
         (dict_get ISO_TO_INDICTRANS2 (lang_of (hd batch)) ''hin_Deva'') = Inl e" for e i
  proof -
    have n: "normalise_blank t = (if strip t = [] then [] else t)" for t
      by (auto simp: normalise_blank_def)
    have o: "batch_outcome (indictrans2_bulk svc) batch i
               = (if strip (text_of (batch ! i)) = [] then [] else text_of (batch ! i))"
      using that(2) translate_texts_indictrans2_fail_open [OF that(3)]
      by (simp add: batch_outcome_def indictrans2_bulk_def n)
    from process_batch_at [OF that(1,2), of "indictrans2_bulk svc" p]
    have r: "results (process_batch (indictrans2_bulk svc) batch p) (req_id_of (batch ! i))
              = Some (if strip (text_of (batch ! i)) = [] then [] else text_of (batch ! i))"
      and f: "req_id_of (batch ! i) \<in> fired (process_batch (indictrans2_bulk svc) batch p)"
      unfolding o by simp_all
    from f r pop_result_fst [OF r] show ?thesis by (intro conjI)
  qed
  from a b c d show ?thesis by blast
qed




text \<open>
  Claim C10. Let the ids of the queued requests, the caller's own among them, be distinct
  (they are the ids of live event objects). Then \<open>translate\<close> returns a string: the empty
  string for an empty text, without queueing; otherwise the worker serves the request in some
  batch, at some position \<open>i\<close> of it, with one call of the batched translator on that batch,
  and the caller receives the element \<open>i\<close> of the returned list when the call returns at
  least \<open>i + 1\<close> results, and its own text when the call returns fewer results or raises.
  No other value can reach the caller, and no step of \<open>translate\<close> raises.
\<close>
theorem every_request_resolved:
  assumes "distinct (map req_id_of (queue p @ before @ [(rid, text, lang)] @ after))"
  shows "\<exists>r. translate bulk clocks p before after rid text lang = Some r
     \<and> (text = [] \<longrightarrow> r = [])
     \<and> (text \<noteq> [] \<longrightarrow>
          (\<exists>batch i. i < length batch \<and> batch ! i = (rid, text, lang)
             \<and> (map text_of batch, lang_of (hd batch))
                  \<in> set (bulk_calls (serve bulk clocks p (before @ [(rid, text, lang)] @ after)))
             \<and> (\<forall>tr. bulk (map text_of batch) (lang_of (hd batch)) = Inr tr \<and> i < length tr
                    \<longrightarrow> r = tr ! i)
             \<and> (\<forall>tr. bulk (map text_of batch) (lang_of (hd batch)) = Inr tr \<and> length tr \<le> i
                    \<longrightarrow> r = text)
             \<and> (\<forall>e. bulk (map text_of batch) (lang_of (hd batch)) = Inl e \<longrightarrow> r = text)))"
proof (cases "text = []")
  case True
  then show ?thesis by (simp add: translate_def)
next
  case False
  let ?items = "before @ [(rid, text, lang)] @ after"
  let ?p1 = "fold enqueue ?items p"
  let ?p2 = "serve bulk clocks p ?items"
  let ?k = "length (queue p) + length before"
  have q: "queue ?p1 = queue p @ ?items" by (rule fold_enqueue_queue)
  have s: "?p2 = run_cycles bulk clocks (length (queue ?p1)) ?p1"
    by (simp only: serve_def Let_def)
  have d: "distinct (map req_id_of (queue ?p1))" unfolding q using assms .
  have k: "?k < length (queue ?p1)" unfolding q by simp
  have at: "queue ?p1 ! ?k = (rid, text, lang)"
    unfolding q by (simp add: nth_append)
  from run_cycles_serves [OF d k order_refl, of bulk clocks]
  obtain batch i where i: "i < length batch" and b: "batch ! i = (rid, text, lang)"
    and call: "(map text_of batch, lang_of (hd batch)) \<in> set (bulk_calls ?p2)"
    and fired: "rid \<in> fired ?p2"
    and res: "results ?p2 rid = Some (batch_outcome bulk batch i)"
    unfolding at s [symmetric] by (auto simp: req_id_of_def)
  have "translate bulk clocks p before after rid text lang
          = (if rid \<in> fired ?p2 then Some (fst (pop_result rid text ?p2)) else None)"
    using False by (simp only: translate_def Let_def if_False)
  also have "\<dots> = Some (batch_outcome bulk batch i)"
    using fired pop_result_fst [OF res, of "text"] by (simp only: if_True)
  finally have tr: "translate bulk clocks p before after rid text lang
                      = Some (batch_outcome bulk batch i)" .
  have own: "text_of (batch ! i) = text" unfolding b by (simp add: text_of_def)
  define r where "r = batch_outcome bulk batch i"
  have o1: "r = tr ! i"
    if "bulk (map text_of batch) (lang_of (hd batch)) = Inr tr" "i < length tr" for tr
    using that by (simp add: r_def batch_outcome_def)
  have o2: "r = text"
    if "bulk (map text_of batch) (lang_of (hd batch)) = Inr tr" "length tr \<le> i" for tr
    using that own by (simp add: r_def batch_outcome_def)
  have o3: "r = text"
    if "bulk (map text_of batch) (lang_of (hd batch)) = Inl e" for e
    using that own by (simp add: r_def batch_outcome_def)
  have "\<exists>batch i. i < length batch \<and> batch ! i = (rid, text, lang)
             \<and> (map text_of batch, lang_of (hd batch)) \<in> set (bulk_calls ?p2)
             \<and> (\<forall>tr. bulk (map text_of batch) (lang_of (hd batch)) = Inr tr \<and> i < length tr
                    \<longrightarrow> r = tr ! i)
             \<and> (\<forall>tr. bulk (map text_of batch) (lang_of (hd batch)) = Inr tr \<and> length tr \<le> i
                    \<longrightarrow> r = text)
             \<and> (\<forall>e. bulk (map text_of batch) (lang_of (hd batch)) = Inl e \<longrightarrow> r = text)"
    using i b call o1 o2 o3 by (intro exI [of _ batch] exI [of _ i]) blast
  with tr False show ?thesis unfolding r_def [symmetric] by (intro exI [of _ r]) simp
qed


text \<open>Example data: a processor with batches of at most two, a clock that advances by a
  hundredth of a second per reading, and three queued requests in three languages.\<close>
definition demo_proc :: processor where
  "demo_proc = \<lparr>batch_wait_ms = 0.05, max_batch_size = 2, queue = [], results = Map.empty,
                 fired = {}, bulk_calls = []\<rparr>"

definition demo_clock :: "nat \<Rightarrow> real" where
  "demo_clock k = real k / 100"


text \<open>Three batched translators: one that raises, one that returns a single result whatever
  the batch is, and one that marks every text.\<close>
definition failing_bulk :: bulk_translator where
  "failing_bulk texts target_lang = Inl TranslationFailure"

definition short_bulk :: bulk_translator where
  "short_bulk texts target_lang = Inr [''EK'']"

definition marking_bulk :: bulk_translator where
  "marking_bulk texts target_lang = Inr (map (\<lambda>t. target_lang @ '':'' @ t) texts)"

text \<open>Services whose LibreTranslate translator raises on every text.\<close>
definition failing_svc :: services where
  "failing_svc = \<lparr>translation_model = ''libretranslate'',
                   load_languages = Inr [''en'', ''hi''],
                   get_translation = (\<lambda>code. Some (\<lambda>t. Inl TranslationFailure)),
                   extract_and_mask_nouns = (\<lambda>t. Inr (t, [])),
                   restore_nouns = (\<lambda>t m. Inr t),
                   indictrans2 = (\<lambda>ts code. Inl TranslationFailure)\<rparr>"

text \<open>Services with IndicTrans2 selected and failing: in the first LibreTranslate answers
  every text with \<open>namaste\<close>, in the second it raises too.\<close>
definition fallback_svc :: services where
  "fallback_svc = \<lparr>translation_model = ''indictrans2'',
                    load_languages = Inr [''en'', ''hi''],
                    get_translation = (\<lambda>code. Some (\<lambda>t. Inr ''namaste'')),
                    extract_and_mask_nouns = (\<lambda>t. Inr (t, [])),
                    restore_nouns = (\<lambda>t m. Inr t),
                    indictrans2 = (\<lambda>ts code. Inl TranslationFailure)\<rparr>"

definition down_svc :: services where
  "down_svc = \<lparr>translation_model = ''indictrans2'',
                load_languages = Inr [''en'', ''hi''],
                get_translation = (\<lambda>code. Some (\<lambda>t. Inl TranslationFailure)),
                extract_and_mask_nouns = (\<lambda>t. Inr (t, [])),
                restore_nouns = (\<lambda>t m. Inr t),
                indictrans2 = (\<lambda>ts code. Inl TranslationFailure)\<rparr>"




lemma demo_failures:
  "translation_model failing_svc \<noteq> ''indictrans2''
   \<and> libretranslate_try failing_svc ''hello'' ''hi'' False = Inl TranslationFailure"
  "translation_model fallback_svc = ''indictrans2''
   \<and> indictrans2_try fallback_svc ''hello'' ''hi'' False = Inl TranslationFailure"
  "translation_model down_svc = ''indictrans2''
   \<and> indictrans2_try down_svc ''hello'' ''hi'' False = Inl TranslationFailure
   \<and> libretranslate_try down_svc ''hello'' ''hi'' False = Inl TranslationFailure"
  "translate_batch_libretranslate fallback_svc ''hello'' ''hi'' False = ''namaste''"
  by code_simp+

text \<open>
  The IndicTrans2 pipeline fails on a batch of two requests, the second with a blank text: the
  first is resolved with its text, the second with the empty string. On the single-item path
  the input comes back when the selected LibreTranslate fails and when both models fail, and
  LibreTranslate's answer comes back when only IndicTrans2 fails.
\<close>
theorem fail_open_translation_witness:
  "translate_batch failing_svc ''hello'' ''hi'' False = ''hello''
   \<and> translate_batch fallback_svc ''hello'' ''hi'' False = ''namaste''
   \<and> translate_batch down_svc ''hello'' ''hi'' False = ''hello''
   \<and> 1 \<in> fired (process_batch (indictrans2_bulk failing_svc)
                   [(1, ''one'', ''hi''), (2, ''  '', ''ta'')] demo_proc)
   \<and> results (process_batch (indictrans2_bulk failing_svc)
                [(1, ''one'', ''hi''), (2, ''  '', ''ta'')] demo_proc) 1 = Some ''one''
   \<and> 2 \<in> fired (process_batch (indictrans2_bulk failing_svc)
                   [(1, ''one'', ''hi''), (2, ''  '', ''ta'')] demo_proc)
   \<and> results (process_batch (indictrans2_bulk failing_svc)
                [(1, ''one'', ''hi''), (2, ''  '', ''ta'')] demo_proc) 2 = Some ''''"
proof -
  let ?b = "[(1, ''one'', ''hi''), (2, ''  '', ''ta'')] :: request list"
  let ?p = "process_batch (indictrans2_bulk failing_svc) ?b demo_proc"
  have w1: "translate_batch failing_svc ''hello'' ''hi'' False = ''hello''"
    by (rule fail_open_translation [of failing_svc "''hello''" "''hi''" False,
          THEN conjunct1, THEN spec, THEN mp, OF demo_failures(1)])
  have "translate_batch fallback_svc ''hello'' ''hi'' False
          = translate_batch_libretranslate fallback_svc ''hello'' ''hi'' False"
    by (rule fail_open_translation [of fallback_svc "''hello''" "''hi''" False,
          THEN conjunct2, THEN conjunct1, THEN spec, THEN mp, OF demo_failures(2)])
  then have w2: "translate_batch fallback_svc ''hello'' ''hi'' False = ''namaste''"
    by (simp only: demo_failures(4))
  have w3: "translate_batch down_svc ''hello'' ''hi'' False = ''hello''"
    by (rule fail_open_translation [of down_svc "''hello''" "''hi''" False,
          THEN conjunct2, THEN conjunct2, THEN conjunct1, THEN spec, THEN spec, THEN mp,
          OF demo_failures(3)])
  note fo = fail_open_translation [of failing_svc _ _ _ ?b demo_proc,
      THEN conjunct2, THEN conjunct2, THEN conjunct2, THEN spec, THEN spec, THEN mp]
  have h: "distinct (map req_id_of ?b) \<and> i < length ?b
       \<and> indictrans2 failing_svc (map normalise_blank (map text_of ?b))
            (dict_get ISO_TO_INDICTRANS2 (lang_of (hd ?b)) ''hin_Deva'') = Inl TranslationFailure"
    if "i < 2" for i
    using that by (simp add: req_id_of_def failing_svc_def)
  have s: "strip (text_of (?b ! 0)) \<noteq> []" "strip (text_of (?b ! 1)) = []"
    "req_id_of (?b ! 0) = 1" "req_id_of (?b ! 1) = 2" "text_of (?b ! 0) = ''one''"
    by code_simp+
  have "1 \<in> fired ?p \<and> results ?p 1 = Some ''one''"
    using fo [OF h [of 0]] s(1,3,5) by simp
  moreover have "2 \<in> fired ?p \<and> results ?p 2 = Some ''''"
    using fo [OF h [of 1]] s(2,4) by simp
  ultimately show ?thesis using w1 w2 w3 by (intro conjI) simp_all
qed

text \<open>
  The two cases in which a failure does not give the input back. The pipeline fails for a
  queued request whose text is two spaces, and its caller receives the empty string. With
  IndicTrans2 selected and failing on \<open>hello\<close>, the single-item operation returns
  LibreTranslate's answer.
\<close>
theorem fail_open_translation_counterexample:
  "indictrans2 failing_svc (map normalise_blank [''  ''])
      (dict_get ISO_TO_INDICTRANS2 ''hi'' ''hin_Deva'') = Inl TranslationFailure
   \<and> translate (indictrans2_bulk failing_svc) (\<lambda>c. demo_clock) demo_proc [] [] 1 ''  '' ''hi''
       = Some ''''
   \<and> '''' \<noteq> ''  ''
   \<and> indictrans2_try fallback_svc ''hello'' ''hi'' False = Inl TranslationFailure
   \<and> translate_batch fallback_svc ''hello'' ''hi'' False = ''namaste''
   \<and> ''namaste'' \<noteq> ''hello''"
  by code_simp

lemma indictrans2_failure_example:
  "translate (indictrans2_bulk failing_svc) (\<lambda>c. demo_clock) demo_proc [] [] 1 ''one two'' ''hi''
     = Some ''one two''"
  by code_simp




lemma demo_translate_short:
  "translate short_bulk (\<lambda>c. demo_clock) demo_proc [(1, ''one'', ''hi'')] [] 2 ''two'' ''ta'' = Some ''two''"
  "translate short_bulk (\<lambda>c. demo_clock) demo_proc [] [(2, ''two'', ''ta'')] 1 ''one'' ''hi'' = Some ''EK''"
  "translate marking_bulk (\<lambda>c. demo_clock) demo_proc [(1, ''one'', ''hi'')] [] 2 ''two'' ''ta'' = Some ''hi:two''"
  "translate failing_bulk (\<lambda>c. demo_clock) demo_proc [(1, ''one'', ''hi'')] [] 2 ''two'' ''ta'' = Some ''two''"
  by code_simp+


text \<open>
  Two callers are queued and the batched translator returns one result for the batch of two:
  the first caller receives it, the second one receives its own text.
\<close>
theorem every_request_resolved_witness:
  "translate short_bulk (\<lambda>c. demo_clock) demo_proc [(1, ''one'', ''hi'')] [] 2 ''two'' ''ta'' = Some ''two''
   \<and> translate short_bulk (\<lambda>c. demo_clock) demo_proc [] [(2, ''two'', ''ta'')] 1 ''one'' ''hi'' = Some ''EK''"
proof -
  have d: "distinct (map req_id_of (queue demo_proc @ [(1, ''one'', ''hi'')] @ [(2, ''two'', ''ta'')] @ []))"
    by (simp add: demo_proc_def req_id_of_def)
  from every_request_resolved [OF d, of short_bulk "\<lambda>c. demo_clock"]
  obtain r where "translate short_bulk (\<lambda>c. demo_clock) demo_proc [(1, ''one'', ''hi'')] [] 2 ''two'' ''ta'' = Some r"
    by blast
  with demo_translate_short(1) have "r = ''two''" by simp
  with demo_translate_short(1,2) show ?thesis by simp
qed

section \<open>The mixer (xglish\_mixer.py, process\_mixed\_english)\<close>

text \<open>
  The tokenizer and the tagger are external: the model starts from the token list \<open>words\<close> of
  the (quote-normalised) input and from the dictionary \<open>tags\<close> that the tagging step leaves,
  which is empty when tagging failed.
\<close>

text \<open>\<^verbatim>\<open>re.sub(r'[^\w\s\'-]', '', word)\<close>\<close>
definition clean_word :: "string \<Rightarrow> string" where
  "clean_word word =
     filter (\<lambda>c. isalnum_chr c \<or> c = CHR ''_'' \<or> isspace_chr c \<or> c = CHR 0x27 \<or> c = CHR ''-'') word"

text \<open>The decision phase: one call of the classifier per token.\<close>
definition decide ::
  "arith \<Rightarrow> resources \<Rightarrow> (string \<Rightarrow> real) \<Rightarrow> (string \<rightharpoonup> string) \<Rightarrow> real \<Rightarrow> string list \<Rightarrow> bool list" where
  "decide ar res zipf_frequency tags formality_threshold words =
     map (\<lambda>(i, word).
            is_keep_word ar res zipf_frequency (clean_word word)
              (lookup_tag tags (clean_word word) word) i formality_threshold)
         (enumerate 0 words)"

definition process_mixed_english ::
  "arith \<Rightarrow> resources \<Rightarrow> (string \<Rightarrow> real) \<Rightarrow> services \<Rightarrow> transliterator \<Rightarrow> string list
   \<Rightarrow> (string \<rightharpoonup> string) \<Rightarrow> real \<Rightarrow> string \<Rightarrow> error + string" where
  "process_mixed_english ar res zipf_frequency svc transliterate words tags formality_threshold target_lang =
     (let clean_words = map clean_word words;
          decisions = decide ar res zipf_frequency tags formality_threshold words;
          decisions = cohesion res tags words clean_words decisions;
          is_indictrans = (translation_model svc = ''indictrans2'') in
      case mask_chunks is_indictrans words decisions of
        (masked_text, kept_words) \<Rightarrow>
          (let translated_markup = translate_batch svc masked_text target_lang False in
           restore transliterate is_indictrans target_lang kept_words translated_markup))"

text \<open>Services whose translator answers every text with \<open>var 0\<close>: a placeholder that came back
  mangled.\<close>
definition mangling_svc :: services where
  "mangling_svc = \<lparr>translation_model = ''libretranslate'',
                    load_languages = Inr [''en'', ''hi''],
                    get_translation = (\<lambda>code. Some (\<lambda>t. Inr ''var 0'')),
                    extract_and_mask_nouns = (\<lambda>t. Inr (t, [])),
                    restore_nouns = (\<lambda>t m. Inr t),
                    indictrans2 = (\<lambda>ts code. Inl TranslationFailure)\<rparr>"

definition demo_zipf :: "string \<Rightarrow> real" where
  "demo_zipf w = 5"

definition no_tags :: "string \<rightharpoonup> string" where
  "no_tags = Map.empty"



lemma cohesion_step_all_keep:
  assumes "\<forall>d \<in> set decisions. d" "length words = length decisions" "i < length decisions"
  shows "cohesion_step res tags words cw i decisions = decisions"
proof -
  have "decisions ! j" if "j < length decisions" for j
    using assms(1) nth_mem [OF that] by blast
  then have l: "0 < i \<Longrightarrow> decisions ! (i - 1)" and r: "i < length words - 1 \<Longrightarrow> decisions ! (i + 1)"
    using assms(2,3) by simp_all
  show ?thesis using l r by (auto simp: cohesion_step_def Let_def)
qed

lemma fold_cohesion_step_all_keep:
  assumes "\<forall>d \<in> set decisions. d" "length words = length decisions" "\<forall>i \<in> set ixs. i < length decisions"
  shows "fold (cohesion_step res tags words cw) ixs decisions = decisions"
  using assms(3)
  by (induction ixs) (simp_all add: cohesion_step_all_keep [OF assms(1,2)])

lemma cohesion_all_keep:
  assumes "\<forall>d \<in> set decisions. d" "length words = length decisions"
  shows "cohesion res tags words cw decisions = decisions"
  unfolding cohesion_def
  by (rule fold_cohesion_step_all_keep [OF assms]) (simp add: assms(2))

lemma all_keep_replicate: "(\<forall>d \<in> set ds. d) \<Longrightarrow> ds = replicate (length ds) True"
  by (induction ds) auto

lemma zip_all_keep:
  "takeWhile snd (zip ws (replicate (length ws) True)) = zip ws (replicate (length ws) True)"
  "dropWhile snd (zip ws (replicate (length ws) True)) = []"
  by (induction ws) auto

lemma chunks_all_keep:
  "words \<noteq> [] \<Longrightarrow> chunks words (replicate (length words) True) = [words]"
  by (cases words) (simp_all add: chunks_def zip_all_keep)

lemma masked_tokens_all_keep:
  "words \<noteq> [] \<Longrightarrow>
   masked_tokens ind 0 (zip words (replicate (length words) True)) = [placeholder ind 0]"
  by (cases words) (simp_all add: zip_all_keep)

lemma placeholder_0:
  "placeholder True 0 = ''{{0}}''" "placeholder False 0 = ''VAR_0''"
  by code_simp+

lemma collapse_placeholder_0: "collapse_contractions (placeholder ind 0) = placeholder ind 0"
proof (cases ind)
  case True
  have "collapse_contractions ''{{0}}'' = ''{{0}}''" by code_simp
  with True show ?thesis by (simp only: placeholder_0)
next
  case False
  have "collapse_contractions ''VAR_0'' = ''VAR_0''" by code_simp
  with False show ?thesis by (simp only: placeholder_0)
qed

lemma mask_all_keep:
  assumes "words \<noteq> []"
  shows "mask_chunks ind words (replicate (length words) True)
           = (placeholder ind 0, [(placeholder ind 0, join_space words)])"
proof -
  have "length (replicate (length words) True) = length words" by simp
  from mask_eq [OF this, of ind] show ?thesis
    by (simp add: chunks_all_keep [OF assms] masked_tokens_all_keep [OF assms] collapse_placeholder_0)
qed

lemma split_placeholder_0: "re_split ind (placeholder ind 0) = [[], ''0'', []]"
proof (cases ind)
  case True
  have "re_split True ''{{0}}'' = [[], ''0'', []]" by code_simp
  with True show ?thesis by (simp only: placeholder_0)
next
  case False
  have "re_split False ''VAR_0'' = [[], ''0'', []]" by code_simp
  with False show ?thesis by (simp only: placeholder_0)
qed

lemma restore_single_chunk:
  assumes "re_split ind markup = [[], ''0'', []]"
  shows "restore tr ind lang [(placeholder ind 0, chunk)] markup = Inr chunk"
proof -
  have k: "token_key ind ''0'' = placeholder ind 0"
    by (cases ind) (simp_all add: token_key_def placeholder_0)
  have e: "strip [] = []" by (simp add: strip_def)
  have "restore_parts tr ind lang [(placeholder ind 0, chunk)] False [[], ''0'', []]
          = Inr [[], chunk, []]"
    by (simp add: restore_literal_def restore_id_def dict_get_def k e)
  then show ?thesis by (simp add: restore_def assms)
qed


lemma length_decide [simp]: "length (decide ar res zipf tags thr words) = length words"
  by (simp add: decide_def)

lemma translate_batch_empty: "translate_batch svc [] lang pn = []"
  by (simp add: translate_batch_def translate_batch_indictrans2_def translate_batch_libretranslate_def)

lemma mix_no_tokens:
  "process_mixed_english ar res zipf svc tr [] tags thr lang = Inr []"
proof -
  have d: "decide ar res zipf tags thr [] = []" by (simp add: decide_def)
  have c: "cohesion res tags [] [] [] = []" by (simp add: cohesion_def)
  have m: "mask_chunks ind [] [] = ([], [])" for ind
    by (simp add: mask_chunks_def mask_loop.simps)
  have s: "re_split ind [] = [[]]" for ind by (simp add: re_split_def)
  have r: "restore tr ind lang [] [] = Inr []" for ind
    by (simp add: restore_def s restore_literal_def strip_def)
  show ?thesis
    by (simp add: process_mixed_english_def Let_def d c m translate_batch_empty r)
qed

text \<open>
  Claim C5, as the code has it. Let every token of the input be classified keep. If there is
  no token, the result is the empty string. Otherwise the text sent to the translator is
  exactly the placeholder with id 0 (no token text is sent), and the result is the tokens
  joined by single spaces provided that the markup the translator returns for that placeholder
  splits, in the restorer, into the placeholder id 0 with nothing before and after it, as it
  does when the translator returns the placeholder unchanged or fails.
\<close>
theorem pure_keep_identity:
  assumes "\<forall>d \<in> set (decide ar res zipf tags thr words). d"
  shows "(words = [] \<longrightarrow> process_mixed_english ar res zipf svc tr words tags thr lang = Inr [])
    \<and> (words \<noteq> [] \<longrightarrow>
         fst (mask_chunks (translation_model svc = ''indictrans2'') words
                (cohesion res tags words (map clean_word words) (decide ar res zipf tags thr words)))
           = placeholder (translation_model svc = ''indictrans2'') 0)
    \<and> (words \<noteq> []
        \<and> re_split (translation_model svc = ''indictrans2'')
             (translate_batch svc (placeholder (translation_model svc = ''indictrans2'') 0) lang False)
            = [[], ''0'', []]
        \<longrightarrow> process_mixed_english ar res zipf svc tr words tags thr lang = Inr (join_space words))"
proof -
  let ?ind = "translation_model svc = ''indictrans2''"
  let ?d = "decide ar res zipf tags thr words"
  from all_keep_replicate [OF assms] have d: "?d = replicate (length words) True" by simp
  have c: "cohesion res tags words (map clean_word words) ?d = ?d"
    by (rule cohesion_all_keep [OF assms]) simp
  have m: "mask_chunks ?ind words (cohesion res tags words (map clean_word words) ?d)
             = (placeholder ?ind 0, [(placeholder ?ind 0, join_space words)])" if "words \<noteq> []"
    unfolding c using mask_all_keep [OF that, of ?ind] d by simp
  have 1: "process_mixed_english ar res zipf svc tr words tags thr lang = Inr []" if "words = []"
    using that by (simp add: mix_no_tokens)
  have 2: "fst (mask_chunks ?ind words (cohesion res tags words (map clean_word words) ?d))
             = placeholder ?ind 0" if "words \<noteq> []"
    using m [OF that] by simp
  have 3: "process_mixed_english ar res zipf svc tr words tags thr lang = Inr (join_space words)"
    if "words \<noteq> []"
      "re_split ?ind (translate_batch svc (placeholder ?ind 0) lang False) = [[], ''0'', []]"
  proof -
    have "process_mixed_english ar res zipf svc tr words tags thr lang
            = restore tr ?ind lang [(placeholder ?ind 0, join_space words)]
                (translate_batch svc (placeholder ?ind 0) lang False)"
      by (simp add: process_mixed_english_def Let_def m [OF that(1)])
    also have "\<dots> = Inr (join_space words)" by (rule restore_single_chunk [OF that(2)])
    finally show ?thesis .
  qed
  show ?thesis
  proof (intro conjI impI)
    assume "words = []"
    then show "process_mixed_english ar res zipf svc tr words tags thr lang = Inr []" by (rule 1)
  next
    assume "words \<noteq> []"
    then show "fst (mask_chunks ?ind words (cohesion res tags words (map clean_word words) ?d))
             = placeholder ?ind 0" by (rule 2)
  next
    assume "words \<noteq> []
        \<and> re_split ?ind (translate_batch svc (placeholder ?ind 0) lang False) = [[], ''0'', []]"
    then show "process_mixed_english ar res zipf svc tr words tags thr lang = Inr (join_space words)"
      using 3 by (elim conjE) blast
  qed
qed

lemma demo_all_keep: "decide exact_arith demo_res demo_zipf no_tags 7 [''GPU'', ''jugaad''] = [True, True]"
  by code_simp

text \<open>
  Both tokens are classified keep (a technical term and a whitelisted word), the translator
  returns the placeholder mangled, and the result is what the translator returned, not the
  input.
\<close>
theorem pure_keep_identity_counterexample:
  "decide exact_arith demo_res demo_zipf no_tags 7 [''GPU'', ''jugaad''] = [True, True]
   \<and> process_mixed_english exact_arith demo_res demo_zipf mangling_svc demo_transliterate
        [''GPU'', ''jugaad''] no_tags 7 ''hi'' = Inr ''var 0''
   \<and> ''var 0'' \<noteq> join_space [''GPU'', ''jugaad'']"
  by code_simp

lemma demo_fail_open_markup:
  "re_split (translation_model failing_svc = ''indictrans2'')
     (translate_batch failing_svc (placeholder (translation_model failing_svc = ''indictrans2'') 0) ''hi'' False)
    = [[], ''0'', []]"
  by code_simp

text \<open>The same input with a translator that fails: the placeholder comes back unchanged and
  the result is the input.\<close>
theorem pure_keep_identity_witness:
  "process_mixed_english exact_arith demo_res demo_zipf failing_svc demo_transliterate
     [''GPU'', ''jugaad''] no_tags 7 ''hi'' = Inr ''GPU jugaad''"
proof -
  have a: "\<forall>d \<in> set (decide exact_arith demo_res demo_zipf no_tags 7 [''GPU'', ''jugaad'']). d"
    by (simp add: demo_all_keep)
  have ne: "[''GPU'', ''jugaad''] \<noteq> []" by simp
  from pure_keep_identity [OF a, of failing_svc demo_transliterate "''hi''",
      THEN conjunct2, THEN conjunct2, THEN mp, OF conjI [OF ne demo_fail_open_markup]]
  show ?thesis by simp
qed

section \<open>Batch mixing (xglish\_mixer.py, process\_batch\_mixed\_english)\<close>

definition COMMON_ENGLISH_WORDS :: "string list" where
  "COMMON_ENGLISH_WORDS =
    [''hello'', ''hi'', ''bye'', ''goodbye'', ''ok'', ''okay'', ''thanks'', ''thank'', ''sorry'',
     ''please'', ''yes'', ''no'', ''maybe'', ''sure'', ''cool'', ''nice'', ''great'', ''awesome'',
     ''wow'', ''oh'', ''hey'', ''hmm'', ''yeah'', ''yep'', ''nope'', ''fine'', ''good'', ''bad'',
     ''love'', ''like'', ''hate'', ''want'', ''need'', ''miss'', ''happy'', ''sad'', ''angry'',
     ''computer'', ''phone'', ''internet'', ''email'', ''password'', ''app'', ''website'',
     ''video'', ''photo'', ''music'', ''movie'', ''game'', ''online'', ''offline'']"

text \<open>
  The other collaborators of batch mixing: the tokenizer of the mixer and the dictionary its
  tagging step leaves (both total: a tagging failure is caught and gives the empty
  dictionary), and NLTK's \<^verbatim>\<open>word_tokenize\<close>, which may raise.
\<close>
record text_tools =
  tokenize :: "string \<Rightarrow> string list"
  tag_tokens :: "string \<Rightarrow> (string \<rightharpoonup> string)"
  word_tokenize :: "string \<Rightarrow> error + string list"

text \<open>\<open>process_mixed_english\<close> on a text.\<close>
definition mix_text ::
  "arith \<Rightarrow> resources \<Rightarrow> (string \<Rightarrow> real) \<Rightarrow> services \<Rightarrow> transliterator \<Rightarrow> text_tools \<Rightarrow> real \<Rightarrow> string
   \<Rightarrow> string \<Rightarrow> error + string" where
  "mix_text ar res zipf_frequency svc transliterate tools threshold target_lang t =
     process_mixed_english ar res zipf_frequency svc transliterate (tokenize tools t) (tag_tokens tools t)
       threshold target_lang"

text \<open>\<^verbatim>\<open>re.sub(r'\s+([,\.\?\!\;\:])', r'\1', result)\<close>: a run of whitespace directly before one
  of the six punctuation marks is dropped.\<close>
function collapse_punct :: "string \<Rightarrow> string" where
  "collapse_punct [] = []"
| "collapse_punct (c # cs) =
     (if isspace_chr c then
        (case dropWhile isspace_chr cs of
           [] \<Rightarrow> c # collapse_punct cs
         | p # rest \<Rightarrow>
             if p \<in> set '',.?!;:'' then p # collapse_punct rest else c # collapse_punct cs)
      else c # collapse_punct cs)"
  by pat_completeness auto
termination
proof (relation "measure length", goal_cases)
  case 1
  then show ?case by simp
next
  case (2 c cs)
  then show ?case by simp
next
  case (3 c cs p rest)
  have "length (dropWhile isspace_chr cs) \<le> length cs" by (rule length_dropWhile_le)
  with 3 show ?case by simp
next
  case (4 c cs p rest)
  then show ?case by simp
next
  case (5 c cs)
  then show ?case by simp
qed

text \<open>The loop that writes the kept source words over the romanized words at their
  positions, when the position exists.\<close>
definition overwrite_kept :: "resources \<Rightarrow> string list \<Rightarrow> string list \<Rightarrow> string list" where
  "overwrite_kept res orig_words rom_words =
     fold (\<lambda>(j, word) rom.
             if lower word \<in> set COMMON_ENGLISH_WORDS \<or> lower word \<in> TECH_TERMS res
             then (if j < length rom then rom[j := word] else rom)
             else rom)
          (enumerate 0 orig_words) rom_words"

text \<open>The body of the loop over \<^verbatim>\<open>zip(texts, translations)\<close>.\<close>
definition mix_v2_item ::
  "resources \<Rightarrow> transliterator \<Rightarrow> text_tools \<Rightarrow> string \<Rightarrow> string \<times> string \<Rightarrow> error + string" where
  "mix_v2_item res transliterate tools target_lang pair =
     (case pair of (orig_text, translated) \<Rightarrow>
        (let script_name = get_script_name target_lang in
         case (if script_name \<noteq> [] then transliterate script_name ''RomanReadable'' translated
               else Inr translated) of
           Inl e \<Rightarrow> Inl e
         | Inr romanized \<Rightarrow>
             (case word_tokenize tools orig_text of
                Inl e \<Rightarrow> Inl e
              | Inr orig_words \<Rightarrow>
                  (case word_tokenize tools romanized of
                     Inl e \<Rightarrow> Inl e
                   | Inr rom_words \<Rightarrow>
                       Inr (collapse_punct (join_space (overwrite_kept res orig_words rom_words)))))))"

text \<open>A loop or comprehension that appends one result per item and stops at the first
  exception.\<close>
fun collect_results :: "('a \<Rightarrow> error + 'b) \<Rightarrow> 'a list \<Rightarrow> error + 'b list" where
  "collect_results f [] = Inr []"
| "collect_results f (x # xs) =
     (case f x of
        Inl e \<Rightarrow> Inl e
      | Inr y \<Rightarrow> (case collect_results f xs of Inl e \<Rightarrow> Inl e | Inr ys \<Rightarrow> Inr (y # ys)))"

definition process_batch_mixed_english ::
  "arith \<Rightarrow> resources \<Rightarrow> (string \<Rightarrow> real) \<Rightarrow> services \<Rightarrow> transliterator \<Rightarrow> text_tools \<Rightarrow> string list
   \<Rightarrow> real \<Rightarrow> string \<Rightarrow> bool \<Rightarrow> error + string list" where
  "process_batch_mixed_english ar res zipf_frequency svc transliterate tools texts threshold target_lang use_v2 =
     (if texts = [] then Inr []
      else
        (let is_indictrans = (translation_model svc = ''indictrans2'') in
         if use_v2 \<and> is_indictrans then
           (let translations = translate_texts_indictrans2 svc texts target_lang in
            collect_results (mix_v2_item res transliterate tools target_lang) (zip texts translations))
         else
           collect_results (mix_text ar res zipf_frequency svc transliterate tools threshold target_lang) texts))"



text \<open>The mixed form of the input at position \<open>i\<close>: what the path taken computes from the
  text at that position (and, on the bulk path, from the translation at that position).\<close>
definition mixed_form ::
  "arith \<Rightarrow> resources \<Rightarrow> (string \<Rightarrow> real) \<Rightarrow> services \<Rightarrow> transliterator \<Rightarrow> text_tools \<Rightarrow> string list
   \<Rightarrow> real \<Rightarrow> string \<Rightarrow> bool \<Rightarrow> nat \<Rightarrow> error + string" where
  "mixed_form ar res zipf_frequency svc transliterate tools texts threshold target_lang use_v2 i =
     (if use_v2 \<and> translation_model svc = ''indictrans2''
      then mix_v2_item res transliterate tools target_lang
             (texts ! i, translate_texts_indictrans2 svc texts target_lang ! i)
      else mix_text ar res zipf_frequency svc transliterate tools threshold target_lang (texts ! i))"

lemma collect_results_Inr:
  "collect_results f xs = Inr ys \<Longrightarrow>
   length ys = length xs \<and> (\<forall>i<length xs. f (xs ! i) = Inr (ys ! i))"
proof (induction xs arbitrary: ys)
  case Nil
  then show ?case by simp
next
  case (Cons x xs)
  from Cons.prems obtain y ys' where y: "f x = Inr y" and r: "collect_results f xs = Inr ys'"
    and ys: "ys = y # ys'"
    by (auto split: sum.splits)
  from Cons.IH [OF r] have "length ys' = length xs" and "\<forall>i<length xs. f (xs ! i) = Inr (ys' ! i)"
    by simp_all
  with y ys show ?case by (auto simp: nth_Cons split: nat.splits)
qed

lemma collect_results_total:
  "(\<forall>i<length xs. \<exists>y. f (xs ! i) = Inr y) \<Longrightarrow> \<exists>ys. collect_results f xs = Inr ys"
proof (induction xs)
  case Nil
  then show ?case by simp
next
  case (Cons x xs)
  from Cons.prems have "\<exists>y. f ((x # xs) ! 0) = Inr y" by blast
  then obtain y where y: "f x = Inr y" by auto
  have "\<forall>i<length xs. \<exists>y. f (xs ! i) = Inr y"
  proof (intro allI impI)
    fix i assume "i < length xs"
    then have "Suc i < length (x # xs)" by simp
    with Cons.prems have "\<exists>y. f ((x # xs) ! Suc i) = Inr y" by blast
    then show "\<exists>y. f (xs ! i) = Inr y" by simp
  qed
  from Cons.IH [OF this] obtain ys where "collect_results f xs = Inr ys" ..
  with y show ?case by simp
qed

lemma translate_texts_indictrans2_length:
  assumes "\<forall>tr. indictrans2 svc (map normalise_blank texts)
                  (dict_get ISO_TO_INDICTRANS2 target_lang ''hin_Deva'') = Inr tr
               \<longrightarrow> length tr = length texts"
  shows "length (translate_texts_indictrans2 svc texts target_lang) = length texts"
proof -
  have n: "(\<lambda>t. if t \<noteq> [] \<and> strip t \<noteq> [] then t else []) = normalise_blank"
    by (rule ext) (simp add: normalise_blank_def)
  show ?thesis using assms
    by (cases "texts = []") (auto simp: translate_texts_indictrans2_def Let_def n split: sum.splits)
qed


text \<open>
  Claim C8. The empty list gives the empty list. Let the IndicTrans2 pipeline be positionally
  aligned (whenever it returns, it returns one result per text), which matters on the bulk
  path only. Then whenever batch mixing returns, its output has the length of the input, and
  the output at every position is the mixed form of the input at that position; and it does
  return when the mixed form of every position is computed without a failure of the
  transliterator or of the word tokenizer.
\<close>
theorem mix_batch_aligned:
  assumes "use_v2 \<and> translation_model svc = ''indictrans2''
           \<longrightarrow> (\<forall>tr. indictrans2 svc (map normalise_blank texts)
                         (dict_get ISO_TO_INDICTRANS2 target_lang ''hin_Deva'') = Inr tr
                      \<longrightarrow> length tr = length texts)"
  shows "(texts = [] \<longrightarrow>
            process_batch_mixed_english ar res zipf svc tr tools texts thr target_lang use_v2 = Inr [])
    \<and> (\<forall>outs. process_batch_mixed_english ar res zipf svc tr tools texts thr target_lang use_v2 = Inr outs
          \<longrightarrow> length outs = length texts
              \<and> (\<forall>i<length texts.
                    mixed_form ar res zipf svc tr tools texts thr target_lang use_v2 i = Inr (outs ! i)))
    \<and> ((\<forall>i<length texts. \<exists>r. mixed_form ar res zipf svc tr tools texts thr target_lang use_v2 i = Inr r)
          \<longrightarrow> (\<exists>outs. process_batch_mixed_english ar res zipf svc tr tools texts thr target_lang use_v2
                        = Inr outs))"
proof (cases "texts = []")
  case True
  then show ?thesis by (simp add: process_batch_mixed_english_def)
next
  case ne: False
  show ?thesis
  proof (cases "use_v2 \<and> translation_model svc = ''indictrans2''")
    case True
    let ?trs = "translate_texts_indictrans2 svc texts target_lang"
    let ?f = "mix_v2_item res tr tools target_lang"
    from assms True have len: "length ?trs = length texts"
      by (intro translate_texts_indictrans2_length) blast
    have run: "process_batch_mixed_english ar res zipf svc tr tools texts thr target_lang use_v2
                 = collect_results ?f (zip texts ?trs)"
      using ne True by (simp add: process_batch_mixed_english_def Let_def)
    have form: "mixed_form ar res zipf svc tr tools texts thr target_lang use_v2 i
                 = ?f (zip texts ?trs ! i)" if "i < length texts" for i
      using that True len by (simp add: mixed_form_def)
    have lz: "length (zip texts ?trs) = length texts" using len by simp
    have a: "length outs = length texts
              \<and> (\<forall>i<length texts.
                    mixed_form ar res zipf svc tr tools texts thr target_lang use_v2 i = Inr (outs ! i))"
      if "process_batch_mixed_english ar res zipf svc tr tools texts thr target_lang use_v2 = Inr outs"
      for outs
      using collect_results_Inr [of ?f "zip texts ?trs" outs] that form unfolding run lz by simp
    have b: "\<exists>outs. process_batch_mixed_english ar res zipf svc tr tools texts thr target_lang use_v2
                        = Inr outs"
      if "\<forall>i<length texts. \<exists>r. mixed_form ar res zipf svc tr tools texts thr target_lang use_v2 i = Inr r"
      unfolding run
      by (rule collect_results_total) (use that form lz in simp)
    from ne a b show ?thesis by blast
  next
    case False
    let ?f = "mix_text ar res zipf svc tr tools thr target_lang"
    have run: "process_batch_mixed_english ar res zipf svc tr tools texts thr target_lang use_v2
                 = collect_results ?f texts"
      using ne False by (auto simp: process_batch_mixed_english_def Let_def)
    have form: "mixed_form ar res zipf svc tr tools texts thr target_lang use_v2 i = ?f (texts ! i)" for i
      using False by (auto simp: mixed_form_def)
    have a: "length outs = length texts
              \<and> (\<forall>i<length texts.
                    mixed_form ar res zipf svc tr tools texts thr target_lang use_v2 i = Inr (outs ! i))"
      if "process_batch_mixed_english ar res zipf svc tr tools texts thr target_lang use_v2 = Inr outs"
      for outs
      using collect_results_Inr [of ?f texts outs] that unfolding run form by simp
    have b: "\<exists>outs. process_batch_mixed_english ar res zipf svc tr tools texts thr target_lang use_v2
                        = Inr outs"
      if "\<forall>i<length texts. \<exists>r. mixed_form ar res zipf svc tr tools texts thr target_lang use_v2 i = Inr r"
      unfolding run
      by (rule collect_results_total) (use that form in simp)
    from ne a b show ?thesis by blast
  qed
qed


text \<open>Example collaborators: whitespace tokenizers, no tags, and an IndicTrans2 pipeline that
  answers every text with the same two words.\<close>
definition demo_tools :: text_tools where
  "demo_tools = \<lparr>tokenize = split_ws, tag_tokens = (\<lambda>t. Map.empty),
                  word_tokenize = (\<lambda>t. Inr (split_ws t))\<rparr>"

definition indic_svc :: services where
  "indic_svc = \<lparr>translation_model = ''indictrans2'',
                 load_languages = Inr [''en'', ''hi''],
                 get_translation = (\<lambda>code. None),
                 extract_and_mask_nouns = (\<lambda>t. Inr (t, [])),
                 restore_nouns = (\<lambda>t m. Inr t),
                 indictrans2 = (\<lambda>ts code. Inr (map (\<lambda>t. ''namaste duniya'') ts))\<rparr>"

text \<open>The same with a pipeline that returns one result whatever the batch is.\<close>
definition short_indic_svc :: services where
  "short_indic_svc = indic_svc\<lparr>indictrans2 := (\<lambda>ts code. Inr [''namaste duniya''])\<rparr>"

lemma demo_mix_batch:
  "process_batch_mixed_english exact_arith demo_res demo_zipf indic_svc demo_transliterate demo_tools
     [''hello world'', ''GPU''] 7 ''hi'' True = Inr [''hello duniya'', ''GPU duniya'']"
  "process_batch_mixed_english exact_arith demo_res demo_zipf failing_svc demo_transliterate demo_tools
     [''GPU jugaad'', ''GPU''] 7 ''hi'' True = Inr [''GPU jugaad'', ''GPU'']"
  by code_simp+

text \<open>On the bulk path the outputs are built over \<^verbatim>\<open>zip(texts, translations)\<close>: a pipeline that
  returns fewer results than texts, against its contract, shortens the output.\<close>
lemma mix_batch_short_pipeline_example:
  "process_batch_mixed_english exact_arith demo_res demo_zipf short_indic_svc demo_transliterate demo_tools
     [''hello world'', ''GPU''] 7 ''hi'' True = Inr [''hello duniya'']"
  by code_simp

theorem mix_batch_aligned_witness:
  "\<exists>outs. process_batch_mixed_english exact_arith demo_res demo_zipf indic_svc demo_transliterate demo_tools
            [''hello world'', ''GPU''] 7 ''hi'' True = Inr outs
     \<and> length outs = 2 \<and> outs = [''hello duniya'', ''GPU duniya'']
     \<and> mixed_form exact_arith demo_res demo_zipf indic_svc demo_transliterate demo_tools
          [''hello world'', ''GPU''] 7 ''hi'' True 1 = Inr ''GPU duniya''"
proof -
  let ?texts = "[''hello world'', ''GPU'']"
  have c: "True \<and> translation_model indic_svc = ''indictrans2''
           \<longrightarrow> (\<forall>tr. indictrans2 indic_svc (map normalise_blank ?texts)
                         (dict_get ISO_TO_INDICTRANS2 ''hi'' ''hin_Deva'') = Inr tr
                      \<longrightarrow> length tr = length ?texts)"
    by (auto simp: indic_svc_def)
  note t = mix_batch_aligned [OF c, of exact_arith demo_res demo_zipf demo_transliterate
      demo_tools 7,
      THEN conjunct2, THEN conjunct1, THEN spec, THEN mp, OF demo_mix_batch(1)]
  from t have l: "length [''hello duniya'', ''GPU duniya''] = length ?texts" by (rule conjunct1)
  from t [THEN conjunct2, THEN spec, of 1]
  have m: "mixed_form exact_arith demo_res demo_zipf indic_svc demo_transliterate demo_tools
             ?texts 7 ''hi'' True 1 = Inr ''GPU duniya''"
    by simp
  from demo_mix_batch(1) l m show ?thesis by simp
qed

end
